theory Spec2Isabelle
  imports Main
begin

unbundle bit_operations_syntax

section \<open>The display runtime of lib/tinymodel3.py\<close>

text \<open>
  The embedding follows class \<open>Runtime\<close> of \<open>src/lib/tinymodel3.py\<close>. Python integers
  are \<open>int\<close>. A method that mutates \<open>self\<close> takes the runtime and returns the new one;
  a method that returns a value returns the value paired with the runtime it leaves behind.
  Every \<open>assert\<close>, every list index out of range and the \<open>ValueError\<close> of the constructor
  is an \<open>Inl\<close> result.

  The display side (font lookup, bitmap fill and blit) is kept as the list \<open>events\<close> of
  notifications in the order the code issues them: one \<open>CellRedraw pos code\<close> for the
  fill-and-blit of a single cell in \<open>_update_char\<close>, one \<open>ScrollBlit\<close> for the
  whole-bitmap blit of \<open>_scroll\<close>, one \<open>ClearFill\<close> for the bitmap fill of \<open>_cls\<close>.
\<close>

datatype error = AssertionError | IndexError | ValueError

datatype event = CellRedraw int int | ScrollBlit | ClearFill

record runtime =
  line_width :: int
  line_count :: int
  chars_len :: int
  chars :: "int list"
  cursor :: int
  events :: "event list"

subsection \<open>Python primitives\<close>

text \<open>\<open>int(a/b)\<close>: true division followed by truncation towards zero. The divisors in
  the source are 2, 3 and \<open>line_width\<close> (64 or 32), never zero, and the operands are far
  below the range where float rounding matters.\<close>

definition int_truediv :: "int \<Rightarrow> int \<Rightarrow> int" where
  "int_truediv a b = (if (a < 0) = (b < 0) then \<bar>a\<bar> div \<bar>b\<bar> else - (\<bar>a\<bar> div \<bar>b\<bar>))"

text \<open>\<open>xs[i]\<close> and \<open>xs[i] = v\<close>: a negative index counts from the end, an index outside
  \<open>[-len, len)\<close> raises IndexError.\<close>

definition list_index :: "int list \<Rightarrow> int \<Rightarrow> error + nat" where
  "list_index xs i =
     (if 0 \<le> i \<and> i < int (length xs) then Inr (nat i)
      else if i < 0 \<and> - int (length xs) \<le> i then Inr (nat (i + int (length xs)))
      else Inl IndexError)"

definition list_get :: "int list \<Rightarrow> int \<Rightarrow> error + int" where
  "list_get xs i = (case list_index xs i of Inl e \<Rightarrow> Inl e | Inr k \<Rightarrow> Inr (xs ! k))"

definition list_set :: "int list \<Rightarrow> int \<Rightarrow> int \<Rightarrow> error + int list" where
  "list_set xs i v = (case list_index xs i of Inl e \<Rightarrow> Inl e | Inr k \<Rightarrow> Inr (xs[k := v]))"

text \<open>\<open>range(n)\<close> and \<open>range(a, b)\<close>, empty when the bound is not above the start.\<close>

definition range1 :: "int \<Rightarrow> int list" where
  "range1 n = map int [0..<nat n]"

definition range2 :: "int \<Rightarrow> int \<Rightarrow> int list" where
  "range2 a b = map (\<lambda>k. a + int k) [0..<nat (b - a)]"

text \<open>\<open>for i in is: body\<close>, stopping at the first exception.\<close>

fun for_each :: "int list \<Rightarrow> (int \<Rightarrow> 's \<Rightarrow> error + 's) \<Rightarrow> 's \<Rightarrow> error + 's" where
  "for_each [] body s = Inr s"
| "for_each (i # is) body s =
     (case body i s of Inl e \<Rightarrow> Inl e | Inr s' \<Rightarrow> for_each is body s')"

subsection \<open>Construction\<close>

text \<open>\<open>Runtime.__init__\<close>: the two supported modes, a blank buffer, cursor 0.\<close>

definition Runtime_init :: "int \<Rightarrow> error + runtime" where
  "Runtime_init mode =
     (if mode = 64 then
        Inr \<lparr>line_width = 64, line_count = 16, chars_len = 64 * 16,
             chars = map (\<lambda>i. 32) (range1 (64 * 16)), cursor = 0, events = []\<rparr>
      else if mode = 32 then
        Inr \<lparr>line_width = 32, line_count = 16, chars_len = 32 * 16,
             chars = map (\<lambda>i. 32) (range1 (32 * 16)), cursor = 0, events = []\<rparr>
      else Inl ValueError)"

subsection \<open>Private helpers\<close>

text \<open>\<open>_update_char\<close>. Modelled from the spec: the font files read by
  \<open>bitmap_font.load_font\<close> are not in the repository sources; following section 6 of the
  specification the font is a 256-entry table with a glyph for every cell code that fits
  its cell, so \<open>get_glyph\<close> and the two offset assertions succeed and the fill-and-blit
  is the single notification \<open>CellRedraw pos char\<close>.\<close>

definition update_char :: "runtime \<Rightarrow> int \<Rightarrow> int \<Rightarrow> error + runtime" where
  "update_char rt pos c =
     (if \<not> (c \<ge> 0 \<and> c < 256) then Inl AssertionError
      else (case list_get (chars rt) pos of
              Inl e \<Rightarrow> Inl e
            | Inr old \<Rightarrow>
                if old = c then Inr rt
                else (case list_set (chars rt) pos c of
                        Inl e \<Rightarrow> Inl e
                      | Inr cs \<Rightarrow>
                          Inr (rt\<lparr>chars := cs,
                                  events := events rt @ [CellRedraw pos c]\<rparr>))))"

text \<open>\<open>_scroll\<close>: two loops that write \<open>self.chars\<close> in place, then one blit.\<close>

definition scroll :: "runtime \<Rightarrow> error + runtime" where
  "scroll rt =
     (case for_each (range1 (chars_len rt - line_width rt))
             (\<lambda>i cs. case list_get cs (i + line_width rt) of
                        Inl e \<Rightarrow> Inl e
                      | Inr v \<Rightarrow> list_set cs i v)
             (chars rt) of
        Inl e \<Rightarrow> Inl e
      | Inr cs1 \<Rightarrow>
          (case for_each (range2 (chars_len rt - line_width rt) (chars_len rt))
                  (\<lambda>i cs. list_set cs i 32) cs1 of
             Inl e \<Rightarrow> Inl e
           | Inr cs2 \<Rightarrow> Inr (rt\<lparr>chars := cs2, events := events rt @ [ScrollBlit]\<rparr>)))"

text \<open>\<open>_cls\<close> and the public \<open>cls\<close> that calls it.\<close>

definition cls :: "runtime \<Rightarrow> error + runtime" where
  "cls rt =
     (case for_each (range1 (chars_len rt)) (\<lambda>i cs. list_set cs i 32) (chars rt) of
        Inl e \<Rightarrow> Inl e
      | Inr cs \<Rightarrow> Inr (rt\<lparr>chars := cs, cursor := 0, events := events rt @ [ClearFill]\<rparr>))"

subsection \<open>print\<close>

text \<open>The loop \<open>for i in range(self.line_width-cursor_col): self._update_char(self.cursor+i, 32)\<close>
  of the newline and clear-to-end-of-line branches, and the same loop over
  \<open>range(self.chars_len-self.cursor)\<close> of the clear-to-end-of-screen branch.\<close>

definition blank_from_cursor :: "runtime \<Rightarrow> int \<Rightarrow> error + runtime" where
  "blank_from_cursor rt n =
     for_each (range1 n) (\<lambda>i r. update_char r (cursor r + i) 32) rt"

text \<open>One iteration of the loop of \<open>print\<close>, for the code \<open>c = ord(text[i])\<close>.\<close>

definition print_char :: "runtime \<Rightarrow> int \<Rightarrow> error + runtime" where
  "print_char rt c =
     (if c = 8 then
        (let rt1 = rt\<lparr>cursor := (cursor rt - 1 + chars_len rt) mod chars_len rt\<rparr>
         in update_char rt1 (cursor rt1) 32)
      else if c = 10 \<or> c = 13 then
        (let cursor_row = int_truediv (cursor rt) (line_width rt);
             cursor_col = cursor rt mod line_width rt
         in case blank_from_cursor rt (line_width rt - cursor_col) of
              Inl e \<Rightarrow> Inl e
            | Inr rt1 \<Rightarrow>
                if cursor_row < line_count rt1 - 1 then
                  Inr (rt1\<lparr>cursor := (cursor_row + 1) * line_width rt1\<rparr>)
                else (case scroll rt1 of
                        Inl e \<Rightarrow> Inl e
                      | Inr rt2 \<Rightarrow> Inr (rt2\<lparr>cursor := cursor_row * line_width rt2\<rparr>)))
      else if c = 24 then
        (let cursor_row = int_truediv (cursor rt) (line_width rt);
             cursor_col = cursor rt mod line_width rt;
             cursor_col = (cursor_col - 1 + line_width rt) mod line_width rt
         in Inr (rt\<lparr>cursor := cursor_row * line_width rt + cursor_col\<rparr>))
      else if c = 25 then
        (let cursor_row = int_truediv (cursor rt) (line_width rt);
             cursor_col = cursor rt mod line_width rt;
             cursor_col = (cursor_col + 1) mod line_width rt
         in Inr (rt\<lparr>cursor := cursor_row * line_width rt + cursor_col\<rparr>))
      else if c = 26 then
        (let cursor_row = int_truediv (cursor rt) (line_width rt);
             cursor_col = cursor rt mod line_width rt;
             cursor_row = (cursor_row + 1) mod line_count rt
         in Inr (rt\<lparr>cursor := cursor_row * line_width rt + cursor_col\<rparr>))
      else if c = 27 then
        (let cursor_row = int_truediv (cursor rt) (line_width rt);
             cursor_col = cursor rt mod line_width rt;
             cursor_row = (cursor_row - 1 + line_count rt) mod line_count rt
         in Inr (rt\<lparr>cursor := cursor_row * line_width rt + cursor_col\<rparr>))
      else if c = 28 then Inr (rt\<lparr>cursor := 0\<rparr>)
      else if c = 29 then
        (let cursor_row = int_truediv (cursor rt) (line_width rt)
         in Inr (rt\<lparr>cursor := cursor_row * line_width rt\<rparr>))
      else if c = 30 then
        (let cursor_col = cursor rt mod line_width rt
         in blank_from_cursor rt (line_width rt - cursor_col))
      else if c = 31 then blank_from_cursor rt (chars_len rt - cursor rt)
      else if c \<ge> 191 \<and> c < 256 then
        (let cursor_row = int_truediv (cursor rt) (line_width rt);
             cursor_col = cursor rt mod line_width rt;
             tab_col = c - 191;
             cursor_col = (if cursor_col < tab_col then tab_col else cursor_col)
         in Inr (rt\<lparr>cursor := cursor_row * line_width rt + cursor_col\<rparr>))
      else
        (case update_char rt (cursor rt) c of
           Inl e \<Rightarrow> Inl e
         | Inr rt1 \<Rightarrow>
             (let rt2 = rt1\<lparr>cursor := cursor rt1 + 1\<rparr>
              in if cursor rt2 \<ge> chars_len rt2 then
                   (case scroll rt2 of
                      Inl e \<Rightarrow> Inl e
                    | Inr rt3 \<Rightarrow> Inr (rt3\<lparr>cursor := (line_count rt3 - 1) * line_width rt3\<rparr>))
                 else Inr rt2)))"

text \<open>\<open>print(text)\<close>: \<open>text\<close> is given as the list of its code points \<open>ord(text[i])\<close>.\<close>

fun print :: "runtime \<Rightarrow> int list \<Rightarrow> error + runtime" where
  "print rt [] = Inr rt"
| "print rt (c # text) =
     (case print_char rt c of Inl e \<Rightarrow> Inl e | Inr rt' \<Rightarrow> print rt' text)"

definition print_at :: "runtime \<Rightarrow> int \<Rightarrow> int list \<Rightarrow> error + runtime" where
  "print_at rt pos text =
     (if \<not> (pos \<ge> 0 \<and> pos < line_width rt * line_count rt) then Inl AssertionError
      else print (rt\<lparr>cursor := pos\<rparr>) text)"

text \<open>\<open>tab(n)\<close> returns \<open>chr(191+n)\<close>, here its code point.\<close>

definition tab :: "runtime \<Rightarrow> int \<Rightarrow> error + (int \<times> runtime)" where
  "tab rt n = (if \<not> (n \<ge> 0 \<and> n < 64) then Inl AssertionError else Inr (191 + n, rt))"

subsection \<open>Semigraphics\<close>

text \<open>\<open>1<<(2*(y%3) + x%2)\<close>.\<close>

definition pixel_mask :: "int \<Rightarrow> int \<Rightarrow> int" where
  "pixel_mask x y = push_bit (nat (2 * (y mod 3) + x mod 2)) 1"

definition set_px :: "runtime \<Rightarrow> int \<Rightarrow> int \<Rightarrow> error + runtime" where
  "set_px rt x y =
     (if \<not> (x \<ge> 0 \<and> x < line_width rt * 2) then Inl AssertionError
      else if \<not> (y \<ge> 0 \<and> y < line_count rt * 3) then Inl AssertionError
      else
        (let row = int_truediv y 3;
             col = int_truediv x 2;
             pos = row * line_width rt + col
         in case list_get (chars rt) pos of
              Inl e \<Rightarrow> Inl e
            | Inr b \<Rightarrow>
                (let b = (if b AND 0x80 = 0 then 0x80 else b);
                     b = b OR pixel_mask x y
                 in update_char rt pos b)))"

definition reset :: "runtime \<Rightarrow> int \<Rightarrow> int \<Rightarrow> error + runtime" where
  "reset rt x y =
     (if \<not> (x \<ge> 0 \<and> x < line_width rt * 2) then Inl AssertionError
      else if \<not> (y \<ge> 0 \<and> y < line_count rt * 3) then Inl AssertionError
      else
        (let row = int_truediv y 3;
             col = int_truediv x 2;
             pos = row * line_width rt + col
         in case list_get (chars rt) pos of
              Inl e \<Rightarrow> Inl e
            | Inr b \<Rightarrow>
                (let b = (if b AND 0x80 = 0 then 0x80 else b);
                     b = b AND (0xFFFF XOR pixel_mask x y)
                 in update_char rt pos b)))"

definition point :: "runtime \<Rightarrow> int \<Rightarrow> int \<Rightarrow> error + (bool \<times> runtime)" where
  "point rt x y =
     (if \<not> (x \<ge> 0 \<and> x < line_width rt * 2) then Inl AssertionError
      else if \<not> (y \<ge> 0 \<and> y < line_count rt * 3) then Inl AssertionError
      else
        (let row = int_truediv y 3;
             col = int_truediv x 2;
             pos = row * line_width rt + col
         in case list_get (chars rt) pos of
              Inl e \<Rightarrow> Inl e
            | Inr b \<Rightarrow>
                if b AND 0x80 = 0 then Inr (False, rt)
                else Inr ((b AND pixel_mask x y) > 0, rt)))"

subsection \<open>Video memory\<close>

definition peek :: "runtime \<Rightarrow> int \<Rightarrow> error + (int \<times> runtime)" where
  "peek rt addr =
     (if addr \<ge> 15360 \<and> addr < 15360 + chars_len rt then
        (case list_get (chars rt) (addr - 15360) of
           Inl e \<Rightarrow> Inl e
         | Inr v \<Rightarrow> Inr (v, rt))
      else Inr (0, rt))"

definition poke :: "runtime \<Rightarrow> int \<Rightarrow> int \<Rightarrow> error + runtime" where
  "poke rt addr val =
     (if addr \<ge> 15360 \<and> addr < 15360 + chars_len rt then update_char rt (addr - 15360) val
      else Inr rt)"

subsection \<open>Well-formed runtimes\<close>

text \<open>What the constructor establishes and every method keeps: positive dimensions, a
  buffer of exactly \<open>chars_len = line_width * line_count\<close> cells, every cell a code in
  \<open>[0, 256)\<close>.\<close>

definition runtime_ok :: "runtime \<Rightarrow> bool" where
  "runtime_ok rt =
     (0 < line_width rt \<and> 0 < line_count rt \<and>
      chars_len rt = line_width rt * line_count rt \<and>
      int (length (chars rt)) = chars_len rt \<and>
      list_all (\<lambda>c. 0 \<le> c \<and> c < 256) (chars rt))"

subsection \<open>Definitions used to state the properties\<close>

text \<open>The definitions below are not code of the repository: they are the vocabulary the
  theorems are stated in.\<close>

text \<open>The cell index of a pixel in the words of the specification (section 3): \<open>(y div 3)
  * line_width + (x div 2)\<close>.\<close>

definition spec_cell_index :: "int \<Rightarrow> int \<Rightarrow> int \<Rightarrow> int" where
  "spec_cell_index w x y = (y div 3) * w + x div 2"

text \<open>The bit number of a pixel in the words of the specification: \<open>2 * (y mod 3) + (x mod
  2)\<close>.\<close>

definition spec_bit_number :: "int \<Rightarrow> int \<Rightarrow> nat" where
  "spec_bit_number x y = nat (2 * (y mod 3) + x mod 2)"

text \<open>The code a cell is forced to before a pixel is changed: itself when its top bit is set,
  the baseline graphics code 0x80 otherwise.\<close>

definition graphics_base :: "int \<Rightarrow> int" where
  "graphics_base b = (if bit b 7 then b else 128)"

text \<open>The codes that reach the last branch of \<open>print\<close> and pass the assertion of
  \<open>_update_char\<close>: every code of \<open>[0, 191)\<close> except 8, 10, 13 and 24
  to 31.\<close>

definition non_control :: "int \<Rightarrow> bool" where
  "non_control c = (0 \<le> c \<and> c < 191 \<and> c \<noteq> 8 \<and> c \<noteq> 10 \<and> c \<noteq> 13 \<and> (c < 24 \<or> 31 < c))"

text \<open>What a renderer that keeps its own copy of the buffer computes from the notifications it
  receives: a cell redraw stores the code (with Python indexing, as
  \<open>_update_char\<close> does) and is refused when the index is out of range or the
  cell already holds the code; a scroll shifts the copy up one row and blanks the last row;
  a clear blanks every cell.\<close>

fun replay_log :: "int \<Rightarrow> event list \<Rightarrow> int list \<Rightarrow> int list option" where
  "replay_log w [] cs = Some cs"
| "replay_log w (CellRedraw p c # es) cs =
     (case list_index cs p of
        Inl e \<Rightarrow> None
      | Inr k \<Rightarrow> if cs ! k = c then None else replay_log w es (cs[k := c]))"
| "replay_log w (ScrollBlit # es) cs =
     replay_log w es (drop (nat w) cs @ replicate (nat w) 32)"
| "replay_log w (ClearFill # es) cs = replay_log w es (replicate (length cs) 32)"

text \<open>\<open>logged rt rt'\<close>: the later runtime is well formed with the dimensions of the
  earlier one, its notifications extend those of the earlier one, and replaying the new
  notifications on the earlier buffer gives the later buffer.\<close>

definition logged :: "runtime \<Rightarrow> runtime \<Rightarrow> bool" where
  "logged rt rt' =
     (runtime_ok rt' \<and> line_width rt' = line_width rt \<and> line_count rt' = line_count rt \<and>
      chars_len rt' = chars_len rt \<and>
      take (length (events rt)) (events rt') = events rt \<and>
      replay_log (line_width rt) (drop (length (events rt)) (events rt')) (chars rt) =
        Some (chars rt'))"

text \<open>The public methods that change the display, as values, so that a sequence of calls can be
  run.\<close>

datatype call = Cls | Print "int list" | PrintAt int "int list" | Poke int int
  | SetPx int int | Reset int int

text \<open>One call, dispatched to the method.\<close>

fun do_call :: "runtime \<Rightarrow> call \<Rightarrow> error + runtime" where
  "do_call rt Cls = cls rt"
| "do_call rt (Print str) = print rt str"
| "do_call rt (PrintAt pos str) = print_at rt pos str"
| "do_call rt (Poke addr val) = poke rt addr val"
| "do_call rt (SetPx x y) = set_px rt x y"
| "do_call rt (Reset x y) = reset rt x y"

text \<open>A sequence of calls, stopping at the first exception.\<close>

fun do_calls :: "runtime \<Rightarrow> call list \<Rightarrow> error + runtime" where
  "do_calls rt [] = Inr rt"
| "do_calls rt (c # cs) = (case do_call rt c of Inl e \<Rightarrow> Inl e | Inr rt' \<Rightarrow> do_calls rt' cs)"


section \<open>Basic facts\<close>

lemma list_get_ok: "0 \<le> i \<Longrightarrow> i < int (length xs) \<Longrightarrow> list_get xs i = Inr (xs ! nat i)"
  by (simp add: list_get_def list_index_def)

lemma list_set_ok: "0 \<le> i \<Longrightarrow> i < int (length xs) \<Longrightarrow> list_set xs i v = Inr (xs[nat i := v])"
  by (simp add: list_set_def list_index_def)

lemma runtime_ok_len: "runtime_ok rt \<Longrightarrow> int (length (chars rt)) = chars_len rt"
  by (simp add: runtime_ok_def)

lemma update_char_ok:
  assumes "runtime_ok rt" "0 \<le> pos" "pos < chars_len rt" "0 \<le> c" "c < 256"
  shows "update_char rt pos c =
           Inr (if chars rt ! nat pos = c then rt
                else rt\<lparr>chars := (chars rt)[nat pos := c],
                        events := events rt @ [CellRedraw pos c]\<rparr>)"
  using assms runtime_ok_len [of rt] by (simp add: update_char_def list_get_ok list_set_ok)

lemma runtime_ok_update:
  assumes "runtime_ok rt" "0 \<le> c" "c < 256"
  shows "runtime_ok (rt\<lparr>chars := (chars rt)[k := c], events := ev\<rparr>)"
  using assms by (auto simp add: runtime_ok_def list_all_iff dest: set_update_subset_insert [THEN subsetD])

lemma runtime_ok_cursor: "runtime_ok (rt\<lparr>cursor := p\<rparr>) = runtime_ok rt"
  by (simp add: runtime_ok_def)

lemma Runtime_init_64_ok: "runtime_ok (projr (Runtime_init 64))"
  by (simp add: Runtime_init_def runtime_ok_def range1_def list_all_iff)

lemma Runtime_init_32_ok: "runtime_ok (projr (Runtime_init 32))"
  by (simp add: Runtime_init_def runtime_ok_def range1_def list_all_iff)

lemma peek_in: 
  assumes "runtime_ok rt" "0 \<le> k" "k < chars_len rt"
  shows "peek rt (15360 + k) = Inr (chars rt ! nat k, rt)"
  using assms runtime_ok_len [of rt] by (simp add: peek_def list_get_ok)

lemma peek_out: "\<not> (15360 \<le> addr \<and> addr < 15360 + chars_len rt) \<Longrightarrow> peek rt addr = Inr (0, rt)"
  by (auto simp add: peek_def)

lemma poke_out: "\<not> (15360 \<le> addr \<and> addr < 15360 + chars_len rt) \<Longrightarrow> poke rt addr v = Inr rt"
  by (auto simp add: poke_def)

lemma poke_peek:
  assumes "runtime_ok rt" "0 \<le> k" "k < chars_len rt" "0 \<le> v" "v \<le> 255"
  shows "\<exists>rt'. poke rt (15360 + k) v = Inr rt' \<and> peek rt' (15360 + k) = Inr (v, rt')"
proof -
  let ?rt' = "if chars rt ! nat k = v then rt
              else rt\<lparr>chars := (chars rt)[nat k := v], events := events rt @ [CellRedraw k v]\<rparr>"
  have p: "poke rt (15360 + k) v = Inr ?rt'"
    using assms by (simp add: poke_def update_char_ok)
  have ok: "runtime_ok ?rt'" using assms by (simp add: runtime_ok_update)
  have len: "chars_len ?rt' = chars_len rt" by simp
  have "nat k < length (chars rt)" using assms runtime_ok_len [of rt] by linarith
  then have "chars ?rt' ! nat k = v" by simp
  moreover have "peek ?rt' (15360 + k) = Inr (chars ?rt' ! nat k, ?rt')"
    using ok assms len by (intro peek_in) simp_all
  ultimately show ?thesis using p by metis
qed

lemma int_truediv_nonneg: "0 \<le> a \<Longrightarrow> 0 < b \<Longrightarrow> int_truediv a b = a div b"
  by (simp add: int_truediv_def)

lemma cell_index_bounds:
  fixes r c w h :: int
  assumes "0 \<le> r" "r < h" "0 \<le> c" "c < w"
  shows "0 \<le> r * w + c" and "r * w + c < w * h"
proof -
  have w: "0 < w" using assms by linarith
  show "0 \<le> r * w + c" using assms w by simp
  have "r * w + c < r * w + w" using assms by simp
  also have "\<dots> = (r + 1) * w" by (simp add: algebra_simps)
  also have "\<dots> \<le> h * w" using assms w by (intro mult_right_mono) simp_all
  finally show "r * w + c < w * h" by (simp add: mult.commute)
qed

lemma pixel_bit_le5: "nat (2 * (y mod 3) + x mod 2) \<le> 5"
proof -
  have "0 \<le> y mod 3" "y mod 3 < 3" "0 \<le> x mod 2" "x mod 2 < 2" by simp_all
  then show ?thesis by linarith
qed

lemma top_bit_test: "(b AND 0x80 = 0) = (\<not> bit (b::int) 7)"
proof -
  have "(128::int) = push_bit 7 1" by simp
  then show ?thesis by (metis bit_iff_and_push_bit_not_eq_0)
qed

lemma mask_test: "((b::int) AND push_bit n 1 > 0) = bit b n"
proof -
  have "0 \<le> b AND push_bit n 1" by simp
  then have "(b AND push_bit n 1 > 0) = (b AND push_bit n 1 \<noteq> 0)" by linarith
  then show ?thesis by (simp add: bit_iff_and_push_bit_not_eq_0)
qed

lemma code_bit_lt8: "0 \<le> (b::int) \<Longrightarrow> b < 256 \<Longrightarrow> bit b k \<Longrightarrow> k < 8"
proof -
  assume a: "0 \<le> b" "b < 256" "bit b k"
  have "take_bit 8 b = b" using a by (simp add: take_bit_int_eq_self)
  then have "bit (take_bit 8 b) k" using a by simp
  then show "k < 8" by (simp add: bit_take_bit_iff)
qed

lemma set_mask_code:
  assumes "0 \<le> (b::int)" "b < 256" "n \<le> 5"
  shows "0 \<le> b OR push_bit n 1" "b OR push_bit n 1 < 256"
proof -
  show "0 \<le> b OR push_bit n 1" using assms by simp
  have "push_bit n (1::int) < 2 ^ 8"
  proof -
    have "push_bit n (1::int) = 2 ^ n" by (simp add: push_bit_eq_mult)
    also have "\<dots> \<le> 2 ^ 5" using assms by (intro power_increasing) simp_all
    finally show ?thesis by simp
  qed
  moreover have "b < 2 ^ 8" using assms by simp
  ultimately have "b OR push_bit n 1 < 2 ^ 8" using assms by (intro OR_upper) simp_all
  then show "b OR push_bit n 1 < 256" by simp
qed

lemma reset_mask_eq:
  assumes "0 \<le> (b::int)" "b < 256" "n \<le> 5"
  shows "b AND (0xFFFF XOR push_bit n 1) = unset_bit n b"
proof (rule bit_eqI)
  fix k
  have m: "(0xFFFF::int) = mask 16" by (simp add: mask_eq_exp_minus_1)
  show "bit (b AND (0xFFFF XOR push_bit n 1)) k = bit (unset_bit n b) k"
    using code_bit_lt8 [OF assms(1,2), of k] assms(3)
    by (auto simp add: m bit_simps bit_unset_bit_iff)
qed

lemma reset_mask_code:
  assumes "0 \<le> (b::int)" "b < 256" "n \<le> 5"
  shows "0 \<le> b AND (0xFFFF XOR push_bit n 1)" "b AND (0xFFFF XOR push_bit n 1) < 256"
proof -
  show "0 \<le> b AND (0xFFFF XOR push_bit n 1)" using assms by simp
  have "b AND (0xFFFF XOR push_bit n 1) \<le> b" using assms by (intro AND_upper1) simp
  then show "b AND (0xFFFF XOR push_bit n 1) < 256" using assms by linarith
qed

lemma runtime_ok_code:
  assumes "runtime_ok rt" "i < length (chars rt)"
  shows "0 \<le> chars rt ! i" "chars rt ! i < 256"
  using assms by (simp_all add: runtime_ok_def list_all_length)

lemma spec_cell_index_bounds:
  assumes "runtime_ok rt" "0 \<le> x" "x < 2 * line_width rt" "0 \<le> y" "y < 3 * line_count rt"
  shows "0 \<le> spec_cell_index (line_width rt) x y"
    and "spec_cell_index (line_width rt) x y < chars_len rt"
proof -
  have r: "0 \<le> y div 3" "y div 3 < line_count rt" using assms by simp_all
  have c: "0 \<le> x div 2" "x div 2 < line_width rt" using assms by simp_all
  have l: "chars_len rt = line_width rt * line_count rt" using assms by (simp add: runtime_ok_def)
  show "0 \<le> spec_cell_index (line_width rt) x y"
    unfolding spec_cell_index_def using r c by (rule cell_index_bounds(1))
  show "spec_cell_index (line_width rt) x y < chars_len rt"
    unfolding spec_cell_index_def l using r c by (rule cell_index_bounds(2))
qed

lemma graphics_base_code:
  assumes "0 \<le> b" "b < 256"
  shows "0 \<le> graphics_base b" "graphics_base b < 256" "bit (graphics_base b) 7"
  using assms by (simp_all add: graphics_base_def)

lemma pixel_mask_eq: "pixel_mask x y = push_bit (spec_bit_number x y) 1"
  by (simp only: pixel_mask_def spec_bit_number_def)

lemma pixel_mask_test: "(b AND pixel_mask x y > 0) = bit b (spec_bit_number x y)"
  by (simp only: pixel_mask_eq mask_test)

lemma pixel_mask_or: "b OR pixel_mask x y = set_bit (spec_bit_number x y) b"
  by (simp only: pixel_mask_eq set_bit_eq_or)

lemma point_eq:
  assumes "runtime_ok rt" "0 \<le> x" "x < 2 * line_width rt" "0 \<le> y" "y < 3 * line_count rt"
  shows "point rt x y =
           Inr (bit (chars rt ! nat (spec_cell_index (line_width rt) x y)) 7 \<and>
                bit (chars rt ! nat (spec_cell_index (line_width rt) x y)) (spec_bit_number x y), rt)"
proof -
  note b = spec_cell_index_bounds [OF assms]
  have g: "list_get (chars rt) (spec_cell_index (line_width rt) x y) =
             Inr (chars rt ! nat (spec_cell_index (line_width rt) x y))"
    using b runtime_ok_len [OF assms(1)] by (simp add: list_get_ok)
  have d: "int_truediv y 3 * line_width rt + int_truediv x 2 = spec_cell_index (line_width rt) x y"
    using assms by (simp add: int_truediv_nonneg spec_cell_index_def)
  show ?thesis
    using assms(2-5)
    by (simp add: point_def Let_def d g top_bit_test pixel_mask_test)
qed

lemma set_px_eq:
  assumes "runtime_ok rt" "0 \<le> x" "x < 2 * line_width rt" "0 \<le> y" "y < 3 * line_count rt"
  shows "set_px rt x y =
           update_char rt (spec_cell_index (line_width rt) x y)
             (set_bit (spec_bit_number x y)
                (graphics_base (chars rt ! nat (spec_cell_index (line_width rt) x y))))"
proof -
  note b = spec_cell_index_bounds [OF assms]
  have g: "list_get (chars rt) (spec_cell_index (line_width rt) x y) =
             Inr (chars rt ! nat (spec_cell_index (line_width rt) x y))"
    using b runtime_ok_len [OF assms(1)] by (simp add: list_get_ok)
  have d: "int_truediv y 3 * line_width rt + int_truediv x 2 = spec_cell_index (line_width rt) x y"
    using assms by (simp add: int_truediv_nonneg spec_cell_index_def)
  show ?thesis
    using assms(2-5)
    by (simp add: set_px_def Let_def d g top_bit_test pixel_mask_or graphics_base_def)
qed

lemma reset_eq:
  assumes "runtime_ok rt" "0 \<le> x" "x < 2 * line_width rt" "0 \<le> y" "y < 3 * line_count rt"
  shows "reset rt x y =
           update_char rt (spec_cell_index (line_width rt) x y)
             (unset_bit (spec_bit_number x y)
                (graphics_base (chars rt ! nat (spec_cell_index (line_width rt) x y))))"
proof -
  note b = spec_cell_index_bounds [OF assms]
  let ?i = "spec_cell_index (line_width rt) x y"
  have lt: "nat ?i < length (chars rt)" using b runtime_ok_len [OF assms(1)] by linarith
  have g: "list_get (chars rt) ?i = Inr (chars rt ! nat ?i)"
    using b runtime_ok_len [OF assms(1)] by (simp add: list_get_ok)
  have d: "int_truediv y 3 * line_width rt + int_truediv x 2 = ?i"
    using assms by (simp add: int_truediv_nonneg spec_cell_index_def)
  note gb = graphics_base_code [OF runtime_ok_code [OF assms(1) lt]]
  have m: "graphics_base (chars rt ! nat ?i) AND (0xFFFF XOR pixel_mask x y) =
           unset_bit (spec_bit_number x y) (graphics_base (chars rt ! nat ?i))"
    unfolding pixel_mask_def spec_bit_number_def [symmetric]
    using gb(1,2) unfolding spec_bit_number_def by (rule reset_mask_eq) (rule pixel_bit_le5)
  have "reset rt x y = update_char rt ?i (graphics_base (chars rt ! nat ?i) AND (0xFFFF XOR pixel_mask x y))"
    using assms(2-5)
    by (simp add: reset_def Let_def d g top_bit_test graphics_base_def)
  then show ?thesis by (simp only: m)
qed

lemma update_char_result:
  assumes "runtime_ok rt" "0 \<le> pos" "pos < chars_len rt" "0 \<le> c" "c < 256"
  shows "\<exists>rt'. update_char rt pos c = Inr rt' \<and> chars rt' = (chars rt)[nat pos := c] \<and>
           runtime_ok rt' \<and> line_width rt' = line_width rt \<and> line_count rt' = line_count rt \<and>
           chars_len rt' = chars_len rt \<and> cursor rt' = cursor rt"
proof (cases "chars rt ! nat pos = c")
  case True
  then have "update_char rt pos c = Inr rt" using assms by (simp add: update_char_ok)
  moreover have "(chars rt)[nat pos := c] = chars rt" using True by (metis list_update_id)
  ultimately show ?thesis using assms(1) by simp
next
  case False
  let ?rt' = "rt\<lparr>chars := (chars rt)[nat pos := c], events := events rt @ [CellRedraw pos c]\<rparr>"
  have "update_char rt pos c = Inr ?rt'" using False assms by (simp add: update_char_ok)
  moreover have "runtime_ok ?rt'" using assms by (simp add: runtime_ok_update)
  ultimately show ?thesis by simp
qed

lemma bit_128: "bit (128::int) m = (m = 7)"
proof -
  have "(128::int) = 2 ^ 7" by simp
  then show ?thesis by (simp only: bit_exp_iff) simp
qed

lemma set_bit_code:
  assumes "0 \<le> (b::int)" "b < 256" "n \<le> 5"
  shows "0 \<le> set_bit n b" "set_bit n b < 256"
  using set_mask_code [OF assms] by (simp_all only: set_bit_eq_or)

lemma unset_bit_code:
  assumes "0 \<le> (b::int)" "b < 256" "n \<le> 5"
  shows "0 \<le> unset_bit n b" "unset_bit n b < 256"
  using reset_mask_code [OF assms] by (simp_all only: reset_mask_eq [OF assms])

lemma spec_bit_number_le5: "spec_bit_number x y \<le> 5"
  unfolding spec_bit_number_def by (rule pixel_bit_le5)

lemma set_px_result:
  assumes "runtime_ok rt" "0 \<le> x" "x < 2 * line_width rt" "0 \<le> y" "y < 3 * line_count rt"
  shows "\<exists>rt'. set_px rt x y = Inr rt' \<and>
           chars rt' = (chars rt)[nat (spec_cell_index (line_width rt) x y) :=
              set_bit (spec_bit_number x y)
                (graphics_base (chars rt ! nat (spec_cell_index (line_width rt) x y)))] \<and>
           runtime_ok rt' \<and> line_width rt' = line_width rt \<and> line_count rt' = line_count rt \<and>
           chars_len rt' = chars_len rt \<and> cursor rt' = cursor rt"
proof -
  note b = spec_cell_index_bounds [OF assms]
  let ?i = "spec_cell_index (line_width rt) x y"
  have lt: "nat ?i < length (chars rt)" using b runtime_ok_len [OF assms(1)] by linarith
  note gb = graphics_base_code [OF runtime_ok_code [OF assms(1) lt]]
  note sb = set_bit_code [OF gb(1,2) spec_bit_number_le5 [of x y]]
  show ?thesis
    unfolding set_px_eq [OF assms] using assms(1) b sb by (rule update_char_result)
qed

lemma reset_result:
  assumes "runtime_ok rt" "0 \<le> x" "x < 2 * line_width rt" "0 \<le> y" "y < 3 * line_count rt"
  shows "\<exists>rt'. reset rt x y = Inr rt' \<and>
           chars rt' = (chars rt)[nat (spec_cell_index (line_width rt) x y) :=
              unset_bit (spec_bit_number x y)
                (graphics_base (chars rt ! nat (spec_cell_index (line_width rt) x y)))] \<and>
           runtime_ok rt' \<and> line_width rt' = line_width rt \<and> line_count rt' = line_count rt \<and>
           chars_len rt' = chars_len rt \<and> cursor rt' = cursor rt"
proof -
  note b = spec_cell_index_bounds [OF assms]
  let ?i = "spec_cell_index (line_width rt) x y"
  have lt: "nat ?i < length (chars rt)" using b runtime_ok_len [OF assms(1)] by linarith
  note gb = graphics_base_code [OF runtime_ok_code [OF assms(1) lt]]
  note sb = unset_bit_code [OF gb(1,2) spec_bit_number_le5 [of x y]]
  show ?thesis
    unfolding reset_eq [OF assms] using assms(1) b sb by (rule update_char_result)
qed

lemma peek_total:
  assumes "runtime_ok rt"
  shows "\<exists>v. peek rt addr = Inr (v, rt)"
proof (cases "15360 \<le> addr \<and> addr < 15360 + chars_len rt")
  case True
  then have "peek rt (15360 + (addr - 15360)) = Inr (chars rt ! nat (addr - 15360), rt)"
    using assms by (intro peek_in) simp_all
  then show ?thesis by simp
next
  case False
  then show ?thesis by (simp add: peek_out)
qed

lemma for_each_append:
  "for_each (xs @ ys) body s =
     (case for_each xs body s of Inl e \<Rightarrow> Inl e | Inr s' \<Rightarrow> for_each ys body s')"
  by (induction xs arbitrary: s) (auto split: sum.splits)

lemma shift_loop:
  assumes "0 \<le> W" "m + nat W \<le> length cs"
  shows "for_each (map int [0..<m])
           (\<lambda>i cs. case list_get cs (i + W) of Inl e \<Rightarrow> Inl e | Inr v \<Rightarrow> list_set cs i v) cs =
         Inr (map (\<lambda>i. if i < m then cs ! (i + nat W) else cs ! i) [0..<length cs])"
  using assms(2)
proof (induction m)
  case 0
  show ?case by (simp add: map_nth)
next
  case (Suc m)
  let ?s = "map (\<lambda>i. if i < m then cs ! (i + nat W) else cs ! i) [0..<length cs]"
  have ih: "for_each (map int [0..<m])
           (\<lambda>i cs. case list_get cs (i + W) of Inl e \<Rightarrow> Inl e | Inr v \<Rightarrow> list_set cs i v) cs = Inr ?s"
    using Suc by simp
  have len: "length ?s = length cs" by simp
  have g: "list_get ?s (int m + W) = Inr (cs ! (m + nat W))"
  proof -
    have "0 \<le> int m + W" "int m + W < int (length ?s)" using Suc.prems assms(1) by simp_all
    then have "list_get ?s (int m + W) = Inr (?s ! nat (int m + W))" by (rule list_get_ok)
    moreover have "nat (int m + W) = m + nat W" using assms(1) by linarith
    moreover have "?s ! (m + nat W) = cs ! (m + nat W)" using Suc.prems by simp
    ultimately show ?thesis by simp
  qed
  have st: "list_set ?s (int m) (cs ! (m + nat W)) = Inr (?s[m := cs ! (m + nat W)])"
  proof -
    have "0 \<le> int m" "int m < int (length ?s)" using Suc.prems by simp_all
    then have "list_set ?s (int m) (cs ! (m + nat W)) = Inr (?s[nat (int m) := cs ! (m + nat W)])"
      by (rule list_set_ok)
    then show ?thesis by simp
  qed
  have eq: "?s[m := cs ! (m + nat W)] =
        map (\<lambda>i. if i < Suc m then cs ! (i + nat W) else cs ! i) [0..<length cs]"
    by (rule nth_equalityI) (auto simp add: nth_list_update less_Suc_eq)
  show ?case
    by (simp only: upt_Suc_append [OF le0] map_append for_each_append ih list.map for_each.simps
          sum.case g st eq)
qed

lemma fill_loop:
  assumes "0 \<le> a" "nat a + m \<le> length cs"
  shows "for_each (map (\<lambda>k. a + int k) [0..<m]) (\<lambda>i cs. list_set cs i v) cs =
         Inr (map (\<lambda>i. if nat a \<le> i \<and> i < nat a + m then v else cs ! i) [0..<length cs])"
  using assms(2)
proof (induction m)
  case 0
  have e: "\<And>i. (nat a \<le> i \<and> i < nat a) = False" by auto
  show ?case by (simp add: map_nth e)
next
  case (Suc m)
  let ?s = "map (\<lambda>i. if nat a \<le> i \<and> i < nat a + m then v else cs ! i) [0..<length cs]"
  have ih: "for_each (map (\<lambda>k. a + int k) [0..<m]) (\<lambda>i cs. list_set cs i v) cs = Inr ?s"
    using Suc by simp
  have st: "list_set ?s (a + int m) v = Inr (?s[nat a + m := v])"
  proof -
    have "0 \<le> a + int m" "a + int m < int (length ?s)" using Suc.prems assms(1) by simp_all
    then have "list_set ?s (a + int m) v = Inr (?s[nat (a + int m) := v])"
      by (rule list_set_ok)
    moreover have "nat (a + int m) = nat a + m" using assms(1) by linarith
    ultimately show ?thesis by simp
  qed
  have eq: "?s[nat a + m := v] =
        map (\<lambda>i. if nat a \<le> i \<and> i < nat a + Suc m then v else cs ! i) [0..<length cs]"
    by (rule nth_equalityI) (auto simp add: nth_list_update less_Suc_eq)
  show ?case
    by (simp only: upt_Suc_append [OF le0] map_append for_each_append ih list.map for_each.simps
          sum.case st eq)
qed

lemma range1_range2: "range1 n = range2 0 n"
  by (simp add: range1_def range2_def)

lemma runtime_ok_width_le: "runtime_ok rt \<Longrightarrow> line_width rt \<le> chars_len rt"
proof -
  assume ok: "runtime_ok rt"
  then have "line_width rt * 1 \<le> line_width rt * line_count rt"
    by (intro mult_left_mono) (simp_all add: runtime_ok_def)
  then show ?thesis using ok by (simp add: runtime_ok_def)
qed

lemma scroll_result:
  assumes "runtime_ok rt"
  shows "scroll rt =
           Inr (rt\<lparr>chars := drop (nat (line_width rt)) (chars rt) @ replicate (nat (line_width rt)) 32,
                   events := events rt @ [ScrollBlit]\<rparr>)"
proof -
  let ?W = "line_width rt" and ?L = "chars_len rt" and ?cs = "chars rt"
  let ?n = "nat (?L - ?W)"
  have W: "0 < ?W" "?W \<le> ?L" using assms runtime_ok_width_le by (simp_all add: runtime_ok_def)
  have len: "int (length ?cs) = ?L" using assms by (rule runtime_ok_len)
  have n: "?n + nat ?W = length ?cs" using W len by linarith
  let ?s1 = "map (\<lambda>i. if i < ?n then ?cs ! (i + nat ?W) else ?cs ! i) [0..<length ?cs]"
  have l1: "for_each (range1 (?L - ?W))
           (\<lambda>i cs. case list_get cs (i + ?W) of Inl e \<Rightarrow> Inl e | Inr v \<Rightarrow> list_set cs i v) ?cs = Inr ?s1"
    unfolding range1_def using W(1) n by (intro shift_loop) simp_all
  let ?s2 = "map (\<lambda>i. if nat (?L - ?W) \<le> i \<and> i < nat (?L - ?W) + nat ?W then 32 else ?s1 ! i) [0..<length ?s1]"
  have r2: "range2 (?L - ?W) ?L = map (\<lambda>k. (?L - ?W) + int k) [0..<nat ?W]"
    by (simp add: range2_def)
  have l2: "for_each (range2 (?L - ?W) ?L) (\<lambda>i cs. list_set cs i 32) ?s1 = Inr ?s2"
    unfolding r2 using W n by (intro fill_loop) simp_all
  have eq: "?s2 = drop (nat ?W) ?cs @ replicate (nat ?W) 32"
  proof (rule nth_equalityI)
    show "length ?s2 = length (drop (nat ?W) ?cs @ replicate (nat ?W) 32)" using n by simp
  next
    fix i assume "i < length ?s2"
    then have i: "i < length ?cs" by simp
    have d: "length ?cs - nat ?W = ?n" using n by linarith
    show "?s2 ! i = (drop (nat ?W) ?cs @ replicate (nat ?W) 32) ! i"
    proof (cases "i < ?n")
      case True
      then show ?thesis using i n by (simp add: nth_append add.commute d)
    next
      case False
      then show ?thesis using i n by (simp add: nth_append d)
    qed
  qed
  show ?thesis
    unfolding scroll_def by (simp only: l1 l2 sum.case eq)
qed

lemma cls_result:
  assumes "runtime_ok rt"
  shows "cls rt =
           Inr (rt\<lparr>chars := replicate (nat (chars_len rt)) 32, cursor := 0,
                   events := events rt @ [ClearFill]\<rparr>)"
proof -
  let ?L = "chars_len rt" and ?cs = "chars rt"
  have len: "int (length ?cs) = ?L" using assms by (rule runtime_ok_len)
  let ?s = "map (\<lambda>i. if nat 0 \<le> i \<and> i < nat 0 + nat ?L then 32 else ?cs ! i) [0..<length ?cs]"
  have r: "range1 ?L = map (\<lambda>k. 0 + int k) [0..<nat ?L]" by (simp add: range1_def)
  have l: "for_each (range1 ?L) (\<lambda>i cs. list_set cs i 32) ?cs = Inr ?s"
    unfolding r using len by (intro fill_loop) simp_all
  have eq: "?s = replicate (nat ?L) 32"
    by (rule nth_equalityI) (use len in auto)
  show ?thesis
    unfolding cls_def by (simp only: l sum.case eq)
qed

lemma print_char_glyph:
  assumes "non_control c"
  shows "print_char rt c =
     (case update_char rt (cursor rt) c of
        Inl e \<Rightarrow> Inl e
      | Inr rt1 \<Rightarrow>
          if cursor rt1 + 1 \<ge> chars_len rt1 then
            (case scroll (rt1\<lparr>cursor := cursor rt1 + 1\<rparr>) of
               Inl e \<Rightarrow> Inl e
             | Inr rt3 \<Rightarrow> Inr (rt3\<lparr>cursor := (line_count rt3 - 1) * line_width rt3\<rparr>))
          else Inr (rt1\<lparr>cursor := cursor rt1 + 1\<rparr>))"
proof -
  have c: "c \<noteq> 8" "\<not> (c = 10 \<or> c = 13)" "c \<noteq> 24" "c \<noteq> 25" "c \<noteq> 26" "c \<noteq> 27" "c \<noteq> 28"
    "c \<noteq> 29" "c \<noteq> 30" "c \<noteq> 31" "\<not> (c \<ge> 191 \<and> c < 256)"
    using assms unfolding non_control_def by linarith+
  show ?thesis
    unfolding print_char_def by (simp only: c if_False Let_def) (simp split: sum.splits)
qed

lemma update_char_scrolls:
  assumes "runtime_ok rt" "0 \<le> pos" "pos < chars_len rt" "0 \<le> c" "c < 256"
    and "update_char rt pos c = Inr rt'"
  shows "count_list (events rt') ScrollBlit = count_list (events rt) ScrollBlit"
  using assms(6) unfolding update_char_ok [OF assms(1-5)] by (auto split: if_splits)

lemma non_control_code: "non_control c \<Longrightarrow> 0 \<le> c \<and> c < 256"
  by (simp add: non_control_def)

lemma print_glyph_noscroll:
  assumes "runtime_ok rt" "0 \<le> cursor rt" "cursor rt + 1 < chars_len rt" "non_control c"
  shows "\<exists>rt'. print_char rt c = Inr rt' \<and> runtime_ok rt' \<and>
           chars rt' = (chars rt)[nat (cursor rt) := c] \<and> cursor rt' = cursor rt + 1 \<and>
           line_width rt' = line_width rt \<and> line_count rt' = line_count rt \<and>
           chars_len rt' = chars_len rt \<and>
           count_list (events rt') ScrollBlit = count_list (events rt) ScrollBlit"
proof -
  have cc: "0 \<le> c" "c < 256" using non_control_code [OF assms(4)] by simp_all
  have p: "cursor rt < chars_len rt" using assms(3) by simp
  obtain rt1 where r1: "update_char rt (cursor rt) c = Inr rt1"
      "chars rt1 = (chars rt)[nat (cursor rt) := c]" "runtime_ok rt1"
      "line_width rt1 = line_width rt" "line_count rt1 = line_count rt"
      "chars_len rt1 = chars_len rt" "cursor rt1 = cursor rt"
    using update_char_result [OF assms(1,2) p cc] by blast
  note ev = update_char_scrolls [OF assms(1,2) p cc r1(1)]
  have "print_char rt c = Inr (rt1\<lparr>cursor := cursor rt1 + 1\<rparr>)"
    using assms(3) by (simp add: print_char_glyph [OF assms(4)] r1)
  then show ?thesis using r1 ev by (simp add: runtime_ok_cursor)
qed

lemma runtime_ok_scroll:
  assumes "runtime_ok rt"
  shows "runtime_ok (rt\<lparr>chars := drop (nat (line_width rt)) (chars rt) @
                                 replicate (nat (line_width rt)) 32,
                        events := ev, cursor := p\<rparr>)"
proof -
  have W: "0 < line_width rt" "line_width rt \<le> chars_len rt"
    using assms runtime_ok_width_le by (simp_all add: runtime_ok_def)
  have len: "int (length (chars rt)) = chars_len rt" using assms by (rule runtime_ok_len)
  have l: "int (length (drop (nat (line_width rt)) (chars rt) @ replicate (nat (line_width rt)) 32))
             = chars_len rt"
    using W len by simp
  have a: "list_all (\<lambda>c. 0 \<le> c \<and> c < 256)
             (drop (nat (line_width rt)) (chars rt) @ replicate (nat (line_width rt)) 32)"
    using assms by (auto simp add: runtime_ok_def list_all_iff dest: in_set_dropD)
  show ?thesis using assms l a by (simp add: runtime_ok_def)
qed

lemma print_glyph_last:
  assumes "runtime_ok rt" "cursor rt = chars_len rt - 1" "non_control c"
  shows "\<exists>rt'. print_char rt c = Inr rt' \<and> runtime_ok rt' \<and>
           chars rt' = drop (nat (line_width rt)) ((chars rt)[nat (cursor rt) := c]) @
                       replicate (nat (line_width rt)) 32 \<and>
           cursor rt' = (line_count rt - 1) * line_width rt \<and>
           line_width rt' = line_width rt \<and> line_count rt' = line_count rt \<and>
           chars_len rt' = chars_len rt \<and>
           count_list (events rt') ScrollBlit = count_list (events rt) ScrollBlit + 1"
proof -
  have cc: "0 \<le> c" "c < 256" using non_control_code [OF assms(3)] by simp_all
  have W: "0 < line_width rt" "line_width rt \<le> chars_len rt"
    using assms(1) runtime_ok_width_le by (simp_all add: runtime_ok_def)
  have p: "0 \<le> cursor rt" "cursor rt < chars_len rt" using assms(2) W by simp_all
  obtain rt1 where r1: "update_char rt (cursor rt) c = Inr rt1"
      "chars rt1 = (chars rt)[nat (cursor rt) := c]" "runtime_ok rt1"
      "line_width rt1 = line_width rt" "line_count rt1 = line_count rt"
      "chars_len rt1 = chars_len rt" "cursor rt1 = cursor rt"
    using update_char_result [OF assms(1) p cc] by blast
  note ev = update_char_scrolls [OF assms(1) p cc r1(1)]
  let ?rt2 = "rt1\<lparr>cursor := cursor rt1 + 1\<rparr>"
  let ?rt3 = "?rt2\<lparr>chars := drop (nat (line_width ?rt2)) (chars ?rt2) @
                         replicate (nat (line_width ?rt2)) 32,
                     events := events ?rt2 @ [ScrollBlit]\<rparr>"
  have ok2: "runtime_ok ?rt2" using r1(3) by (simp add: runtime_ok_cursor)
  have s: "scroll ?rt2 = Inr ?rt3" using ok2 by (rule scroll_result)
  have full: "chars_len rt1 \<le> cursor rt1 + 1" using assms(2) r1(6,7) by simp
  have pc: "print_char rt c = Inr (?rt3\<lparr>cursor := (line_count ?rt3 - 1) * line_width ?rt3\<rparr>)"
    by (simp only: print_char_glyph [OF assms(3)] r1(1) sum.case full if_True s)
  have len: "int (length (chars rt)) = chars_len rt" using assms(1) by (rule runtime_ok_len)
  have ok3: "runtime_ok (?rt3\<lparr>cursor := (line_count ?rt3 - 1) * line_width ?rt3\<rparr>)"
    using runtime_ok_scroll [OF r1(3)] by simp
  show ?thesis
    using pc ok3 r1 ev by simp
qed

lemma print_append:
  "print rt (xs @ ys) = (case print rt xs of Inl e \<Rightarrow> Inl e | Inr rt' \<Rightarrow> print rt' ys)"
  by (induction xs arbitrary: rt) (auto split: sum.splits)

lemma print_glyphs_noscroll:
  assumes "runtime_ok rt" "0 \<le> cursor rt" "cursor rt + int (length str) < chars_len rt"
    and "list_all non_control str"
  shows "\<exists>rt'. print rt str = Inr rt' \<and> runtime_ok rt' \<and>
           chars rt' = take (nat (cursor rt)) (chars rt) @ str @
                       drop (nat (cursor rt) + length str) (chars rt) \<and>
           cursor rt' = cursor rt + int (length str) \<and>
           line_width rt' = line_width rt \<and> line_count rt' = line_count rt \<and>
           chars_len rt' = chars_len rt \<and>
           count_list (events rt') ScrollBlit = count_list (events rt) ScrollBlit"
  using assms
proof (induction str arbitrary: rt)
  case Nil
  then show ?case by simp
next
  case (Cons c str)
  have nc: "non_control c" and rest: "list_all non_control str" using Cons.prems(4) by simp_all
  have one: "cursor rt + 1 < chars_len rt" using Cons.prems(3) by simp
  obtain r1 where r1: "print_char rt c = Inr r1" "runtime_ok r1"
      "chars r1 = (chars rt)[nat (cursor rt) := c]" "cursor r1 = cursor rt + 1"
      "line_width r1 = line_width rt" "line_count r1 = line_count rt"
      "chars_len r1 = chars_len rt"
      "count_list (events r1) ScrollBlit = count_list (events rt) ScrollBlit"
    using print_glyph_noscroll [OF Cons.prems(1,2) one nc] by blast
  have c1: "0 \<le> cursor r1" "cursor r1 + int (length str) < chars_len r1"
    using Cons.prems(2,3) r1(4,7) by simp_all
  obtain r2 where r2: "print r1 str = Inr r2" "runtime_ok r2"
      "chars r2 = take (nat (cursor r1)) (chars r1) @ str @
                  drop (nat (cursor r1) + length str) (chars r1)"
      "cursor r2 = cursor r1 + int (length str)"
      "line_width r2 = line_width r1" "line_count r2 = line_count r1"
      "chars_len r2 = chars_len r1"
      "count_list (events r2) ScrollBlit = count_list (events r1) ScrollBlit"
    using Cons.IH [OF r1(2) c1 rest] by blast
  let ?n = "nat (cursor rt)"
  have len: "int (length (chars rt)) = chars_len rt" using Cons.prems(1) by (rule runtime_ok_len)
  have n: "?n < length (chars rt)" using Cons.prems(2) one len by linarith
  have n1: "nat (cursor r1) = Suc ?n" using r1(4) Cons.prems(2) by linarith
  have t: "take (Suc ?n) ((chars rt)[?n := c]) = take ?n (chars rt) @ [c]"
    using n by (simp add: take_Suc_conv_app_nth)
  have d: "drop (Suc ?n + length str) ((chars rt)[?n := c]) = drop (?n + length (c # str)) (chars rt)"
    by simp
  have ch: "chars r2 = take ?n (chars rt) @ (c # str) @ drop (?n + length (c # str)) (chars rt)"
    by (simp only: r2(3) r1(3) n1 t d) simp
  have p: "print rt (c # str) = Inr r2" by (simp add: r1(1) r2(1))
  show ?case
    using p r2(2) ch r2(4-8) r1(4-8) by simp
qed

lemma scroll_pointwise:
  assumes "runtime_ok rt"
  shows "\<exists>rt'. scroll rt = Inr rt' \<and> length (chars rt') = length (chars rt) \<and>
           cursor rt' = cursor rt \<and>
           (\<forall>i. 0 \<le> i \<and> i < chars_len rt - line_width rt \<longrightarrow>
                chars rt' ! nat i = chars rt ! nat (i + line_width rt)) \<and>
           (\<forall>i. chars_len rt - line_width rt \<le> i \<and> i < chars_len rt \<longrightarrow>
                chars rt' ! nat i = 32)"
proof -
  let ?W = "line_width rt" and ?L = "chars_len rt" and ?cs = "chars rt"
  let ?new = "drop (nat ?W) ?cs @ replicate (nat ?W) 32"
  have W: "0 < ?W" "?W \<le> ?L" using assms runtime_ok_width_le by (simp_all add: runtime_ok_def)
  have len: "int (length ?cs) = ?L" using assms by (rule runtime_ok_len)
  have d: "length (drop (nat ?W) ?cs) = nat (?L - ?W)" using W len by simp
  have l: "length ?new = length ?cs" using W len by simp
  have a: "?new ! nat i = ?cs ! nat (i + ?W)" if "0 \<le> i" "i < ?L - ?W" for i
  proof -
    have "nat i < length (drop (nat ?W) ?cs)" using that d by linarith
    then have "?new ! nat i = drop (nat ?W) ?cs ! nat i" by (simp add: nth_append)
    also have "\<dots> = ?cs ! (nat ?W + nat i)" using W len by (intro nth_drop) simp
    also have "nat ?W + nat i = nat (i + ?W)" using that W by linarith
    finally show ?thesis .
  qed
  have b: "?new ! nat i = 32" if "?L - ?W \<le> i" "i < ?L" for i
  proof -
    have ge: "\<not> nat i < length (drop (nat ?W) ?cs)" using that d W by linarith
    have lt: "nat i - length (drop (nat ?W) ?cs) < nat ?W" using that d W by linarith
    show ?thesis using ge lt by (simp only: nth_append if_False nth_replicate)
  qed
  show ?thesis using scroll_result [OF assms] l a b by simp
qed

lemma full_row_noscroll:
  assumes "runtime_ok rt" "int (length str) = line_width rt" "list_all non_control str"
    and "0 \<le> r" "r < line_count rt - 1" "cursor rt = r * line_width rt"
  shows "\<exists>rt'. print rt str = Inr rt' \<and> cursor rt' = (r + 1) * line_width rt \<and>
           count_list (events rt') ScrollBlit = count_list (events rt) ScrollBlit \<and>
           chars rt' = take (nat (cursor rt)) (chars rt) @ str @
                       drop (nat (cursor rt) + length str) (chars rt)"
proof -
  have W: "0 < line_width rt" and L: "chars_len rt = line_width rt * line_count rt"
    using assms(1) by (simp_all add: runtime_ok_def)
  have c0: "0 \<le> cursor rt" using assms(4,6) W by simp
  have "(r + 1) * line_width rt \<le> (line_count rt - 1) * line_width rt"
    using assms(5) W by (intro mult_right_mono) simp_all
  also have "\<dots> < chars_len rt" using W L by (simp add: algebra_simps)
  finally have c1: "cursor rt + int (length str) < chars_len rt"
    using assms(2,6) by (simp add: algebra_simps)
  obtain rt' where r: "print rt str = Inr rt'"
      "chars rt' = take (nat (cursor rt)) (chars rt) @ str @
                   drop (nat (cursor rt) + length str) (chars rt)"
      "cursor rt' = cursor rt + int (length str)"
      "count_list (events rt') ScrollBlit = count_list (events rt) ScrollBlit"
    using print_glyphs_noscroll [OF assms(1) c0 c1 assms(3)] by blast
  have "cursor rt' = (r + 1) * line_width rt" using r(3) assms(2,6) by (simp add: algebra_simps)
  then show ?thesis using r by blast
qed

lemma full_row_last:
  assumes "runtime_ok rt" "int (length str) = line_width rt" "list_all non_control str"
    and "cursor rt = (line_count rt - 1) * line_width rt"
  shows "\<exists>rt'. print rt str = Inr rt' \<and> cursor rt' = (line_count rt - 1) * line_width rt \<and>
           count_list (events rt') ScrollBlit = count_list (events rt) ScrollBlit + 1 \<and>
           drop (nat (chars_len rt - line_width rt)) (chars rt') =
             replicate (nat (line_width rt)) 32"
proof -
  have W: "0 < line_width rt" and L: "chars_len rt = line_width rt * line_count rt"
    and H: "0 < line_count rt"
    using assms(1) by (simp_all add: runtime_ok_def)
  have ne: "str \<noteq> []" using assms(2) W by auto
  let ?xs = "butlast str" and ?c = "last str"
  have split: "str = ?xs @ [?c]" using ne by simp
  have l1: "1 \<le> length str" using ne by (cases str) simp_all
  have "int (length ?xs) = int (length str) - 1" using l1 by (simp add: of_nat_diff)
  then have lx: "int (length ?xs) = line_width rt - 1" using assms(2) by simp
  have ax: "list_all non_control ?xs" using assms(3) by (auto simp add: list_all_iff dest: in_set_butlastD)
  have ac: "non_control ?c" using assms(3) ne by (simp add: list_all_iff)
  have c0: "0 \<le> cursor rt" using assms(4) W H by simp
  have end1: "cursor rt + int (length ?xs) = chars_len rt - 1"
    using assms(4) lx L by (simp add: algebra_simps)
  then have c1: "cursor rt + int (length ?xs) < chars_len rt" by simp
  obtain r1 where r1: "print rt ?xs = Inr r1" "runtime_ok r1"
      "cursor r1 = cursor rt + int (length ?xs)"
      "line_width r1 = line_width rt" "line_count r1 = line_count rt"
      "chars_len r1 = chars_len rt"
      "count_list (events r1) ScrollBlit = count_list (events rt) ScrollBlit"
    using print_glyphs_noscroll [OF assms(1) c0 c1 ax] by blast
  have cur1: "cursor r1 = chars_len r1 - 1" using r1(3,6) end1 by simp
  obtain r2 where r2: "print_char r1 ?c = Inr r2"
      "chars r2 = drop (nat (line_width r1)) ((chars r1)[nat (cursor r1) := ?c]) @
                  replicate (nat (line_width r1)) 32"
      "cursor r2 = (line_count r1 - 1) * line_width r1"
      "count_list (events r2) ScrollBlit = count_list (events r1) ScrollBlit + 1"
    using print_glyph_last [OF r1(2) cur1 ac] by blast
  have p: "print rt str = Inr r2"
    by (subst split) (simp add: print_append r1(1) r2(1))
  have len1: "int (length (chars r1)) = chars_len rt" using runtime_ok_len [OF r1(2)] r1(6) by simp
  have wl: "line_width rt \<le> chars_len rt" using assms(1) by (rule runtime_ok_width_le)
  have dl: "length (drop (nat (line_width rt)) ((chars r1)[nat (cursor r1) := ?c])) =
              nat (chars_len rt - line_width rt)"
    using len1 W wl by simp
  have "drop (nat (chars_len rt - line_width rt)) (chars r2) = replicate (nat (line_width rt)) 32"
    unfolding r2(2) r1(4) using dl by simp
  then show ?thesis using p r2(3,4) r1(4,5,7) by simp
qed

lemma Runtime_init_64:
  "projr (Runtime_init 64) =
     \<lparr>line_width = 64, line_count = 16, chars_len = 1024, chars = replicate 1024 32,
      cursor = 0, events = []\<rparr>"
  by (simp add: Runtime_init_def range1_def map_replicate_const)

lemma Runtime_init_32:
  "projr (Runtime_init 32) =
     \<lparr>line_width = 32, line_count = 16, chars_len = 512, chars = replicate 512 32,
      cursor = 0, events = []\<rparr>"
  by (simp add: Runtime_init_def range1_def map_replicate_const)

lemma replay_log_append:
  "replay_log w (es1 @ es2) cs =
     (case replay_log w es1 cs of None \<Rightarrow> None | Some cs' \<Rightarrow> replay_log w es2 cs')"
  by (induction w es1 cs rule: replay_log.induct) (auto split: sum.splits)

lemma logged_refl: "runtime_ok rt \<Longrightarrow> logged rt rt"
  by (simp add: logged_def)

lemma logged_appended:
  assumes "runtime_ok rt'" "line_width rt' = line_width rt" "line_count rt' = line_count rt"
    "chars_len rt' = chars_len rt" "events rt' = events rt @ evs"
    "replay_log (line_width rt) evs (chars rt) = Some (chars rt')"
  shows "logged rt rt'"
  using assms by (simp add: logged_def)

lemma logged_events:
  assumes "logged rt rt'"
  shows "events rt' = events rt @ drop (length (events rt)) (events rt')"
proof -
  have "take (length (events rt)) (events rt') = events rt" using assms by (simp add: logged_def)
  then show ?thesis by (metis append_take_drop_id)
qed

lemma logged_trans:
  assumes "logged a b" "logged b c"
  shows "logged a c"
proof -
  let ?e1 = "drop (length (events a)) (events b)" and ?e2 = "drop (length (events b)) (events c)"
  have e1: "events b = events a @ ?e1" using assms(1) by (rule logged_events)
  have e2: "events c = events b @ ?e2" using assms(2) by (rule logged_events)
  have e: "events c = events a @ (?e1 @ ?e2)" using e1 e2 by (metis append_assoc)
  have r1: "replay_log (line_width a) ?e1 (chars a) = Some (chars b)"
    using assms(1) by (simp add: logged_def)
  have r2: "replay_log (line_width a) ?e2 (chars b) = Some (chars c)"
    using assms by (simp add: logged_def)
  have r: "replay_log (line_width a) (?e1 @ ?e2) (chars a) = Some (chars c)"
    by (simp only: replay_log_append r1 option.case r2)
  show ?thesis
    using assms e r by (intro logged_appended [where evs = "?e1 @ ?e2"]) (simp_all add: logged_def)
qed

lemma logged_cursor_right: "logged rt rt' \<Longrightarrow> logged rt (rt'\<lparr>cursor := p\<rparr>)"
  by (simp add: logged_def runtime_ok_cursor)

lemma logged_cursor_left: "logged (rt\<lparr>cursor := p\<rparr>) rt' = logged rt rt'"
  by (simp add: logged_def)

lemma logged_ok: "logged rt rt' \<Longrightarrow> runtime_ok rt'"
  by (simp add: logged_def)

lemma update_char_logged:
  assumes "runtime_ok rt" "update_char rt pos c = Inr rt'"
  shows "logged rt rt'"
proof -
  have c: "0 \<le> c" "c < 256" using assms(2) by (auto simp add: update_char_def split: if_splits)
  obtain k where k: "list_index (chars rt) pos = Inr k"
    using assms(2) c by (auto simp add: update_char_def list_get_def split: sum.splits)
  show ?thesis
  proof (cases "chars rt ! k = c")
    case True
    then have "rt' = rt" using assms(2) c k by (simp add: update_char_def list_get_def)
    then show ?thesis using assms(1) by (simp add: logged_refl)
  next
    case False
    then have r: "rt' = rt\<lparr>chars := (chars rt)[k := c], events := events rt @ [CellRedraw pos c]\<rparr>"
      using assms(2) c k by (simp add: update_char_def list_get_def list_set_def)
    have ok: "runtime_ok rt'" unfolding r using assms(1) c by (rule runtime_ok_update)
    have rp: "replay_log (line_width rt) [CellRedraw pos c] (chars rt) = Some (chars rt')"
      using k False by (simp add: r)
    show ?thesis
      using ok rp by (intro logged_appended [where evs = "[CellRedraw pos c]"]) (simp_all add: r)
  qed
qed

lemma scroll_logged:
  assumes "runtime_ok rt" "scroll rt = Inr rt'"
  shows "logged rt rt'"
proof -
  have r: "rt' = rt\<lparr>chars := drop (nat (line_width rt)) (chars rt) @
                          replicate (nat (line_width rt)) 32,
                  events := events rt @ [ScrollBlit]\<rparr>"
    using assms(2) by (simp add: scroll_result [OF assms(1)])
  have ok: "runtime_ok rt'"
    using runtime_ok_scroll [OF assms(1), where ev = "events rt @ [ScrollBlit]" and p = "cursor rt"]
    by (simp add: r)
  show ?thesis
    using ok by (intro logged_appended [where evs = "[ScrollBlit]"]) (simp_all add: r)
qed

lemma cls_logged:
  assumes "runtime_ok rt" "cls rt = Inr rt'"
  shows "logged rt rt'"
proof -
  have len: "int (length (chars rt)) = chars_len rt" using assms(1) by (rule runtime_ok_len)
  then have n: "nat (chars_len rt) = length (chars rt)" by linarith
  have r: "rt' = rt\<lparr>chars := replicate (length (chars rt)) 32, cursor := 0,
                  events := events rt @ [ClearFill]\<rparr>"
    using assms(2) by (simp add: cls_result [OF assms(1)] n)
  have ok: "runtime_ok rt'" using assms(1) by (simp add: r runtime_ok_def list_all_iff)
  show ?thesis
    using ok by (intro logged_appended [where evs = "[ClearFill]"]) (simp_all add: r)
qed

lemma for_each_logged:
  assumes step: "\<And>i r r'. runtime_ok r \<Longrightarrow> body i r = Inr r' \<Longrightarrow> logged r r'"
    and "runtime_ok rt" "for_each js body rt = Inr rt'"
  shows "logged rt rt'"
  using assms(2,3)
proof (induction js arbitrary: rt)
  case Nil
  then show ?case by (simp add: logged_refl)
next
  case (Cons j js)
  obtain r1 where r1: "body j rt = Inr r1" "for_each js body r1 = Inr rt'"
    using Cons.prems(2) by (auto split: sum.splits)
  have l1: "logged rt r1" using Cons.prems(1) r1(1) by (rule step)
  have l2: "logged r1 rt'" using logged_ok [OF l1] r1(2) by (rule Cons.IH)
  show ?case using l1 l2 by (rule logged_trans)
qed

lemma blank_from_cursor_logged:
  assumes "runtime_ok rt" "blank_from_cursor rt n = Inr rt'"
  shows "logged rt rt'"
  using assms unfolding blank_from_cursor_def
  by (rule for_each_logged [rotated]) (rule update_char_logged)

lemma cursor_only_logged: "runtime_ok rt \<Longrightarrow> logged rt (rt\<lparr>cursor := p\<rparr>)"
  by (rule logged_cursor_right) (rule logged_refl)

lemma blank_then_newline_logged:
  assumes "runtime_ok rt"
    and "(case blank_from_cursor rt n of
            Inl e \<Rightarrow> Inl e
          | Inr rt1 \<Rightarrow>
              if b rt1 then Inr (rt1\<lparr>cursor := p rt1\<rparr>)
              else (case scroll rt1 of
                      Inl e \<Rightarrow> Inl e
                    | Inr rt2 \<Rightarrow> Inr (rt2\<lparr>cursor := q rt2\<rparr>))) = Inr rt'"
  shows "logged rt rt'"
proof -
  obtain rt1 where r1: "blank_from_cursor rt n = Inr rt1"
    using assms(2) by (auto split: sum.splits)
  have l1: "logged rt rt1" using assms(1) r1 by (rule blank_from_cursor_logged)
  show ?thesis
  proof (cases "b rt1")
    case True
    then have "rt' = rt1\<lparr>cursor := p rt1\<rparr>" using assms(2) r1 by simp
    then show ?thesis using l1 by (simp add: logged_cursor_right)
  next
    case False
    then obtain rt2 where r2: "scroll rt1 = Inr rt2" "rt' = rt2\<lparr>cursor := q rt2\<rparr>"
      using assms(2) r1 by (auto split: sum.splits)
    have "logged rt1 rt2" using logged_ok [OF l1] r2(1) by (rule scroll_logged)
    then have "logged rt rt2" using l1 logged_trans by blast
    then show ?thesis by (simp add: r2(2) logged_cursor_right)
  qed
qed

lemma glyph_then_advance_logged:
  assumes "runtime_ok rt"
    and "(case update_char rt pos c of
            Inl e \<Rightarrow> Inl e
          | Inr rt1 \<Rightarrow>
              (let rt2 = rt1\<lparr>cursor := cursor rt1 + 1\<rparr>
               in if cursor rt2 \<ge> chars_len rt2 then
                    (case scroll rt2 of
                       Inl e \<Rightarrow> Inl e
                     | Inr rt3 \<Rightarrow> Inr (rt3\<lparr>cursor := (line_count rt3 - 1) * line_width rt3\<rparr>))
                  else Inr rt2)) = Inr rt'"
  shows "logged rt rt'"
proof -
  obtain rt1 where r1: "update_char rt pos c = Inr rt1"
    using assms(2) by (auto split: sum.splits)
  have l1: "logged rt rt1" using assms(1) r1 by (rule update_char_logged)
  let ?rt2 = "rt1\<lparr>cursor := cursor rt1 + 1\<rparr>"
  have l2: "logged rt ?rt2" using l1 by (rule logged_cursor_right)
  show ?thesis
  proof (cases "cursor ?rt2 \<ge> chars_len ?rt2")
    case False
    then have "rt' = ?rt2" using assms(2) r1 by (simp add: Let_def)
    then show ?thesis using l2 by simp
  next
    case True
    then obtain rt3 where r3: "scroll ?rt2 = Inr rt3"
        "rt' = rt3\<lparr>cursor := (line_count rt3 - 1) * line_width rt3\<rparr>"
      using assms(2) r1 by (auto simp add: Let_def split: sum.splits)
    have "logged ?rt2 rt3" using logged_ok [OF l2] r3(1) by (rule scroll_logged)
    then have "logged rt rt3" using l2 logged_trans by blast
    then show ?thesis by (simp add: r3(2) logged_cursor_right)
  qed
qed

lemma print_char_logged:
  assumes "runtime_ok rt" "print_char rt c = Inr rt'"
  shows "logged rt rt'"
proof -
  consider (bs) "c = 8" | (nl) "c = 10 \<or> c = 13"
    | (mv) "c = 24 \<or> c = 25 \<or> c = 26 \<or> c = 27 \<or> c = 28 \<or> c = 29"
    | (ceol) "c = 30" | (ceof) "c = 31"
    | (tb) "c \<noteq> 8" "\<not> (c = 10 \<or> c = 13)" "c \<noteq> 24" "c \<noteq> 25" "c \<noteq> 26" "c \<noteq> 27" "c \<noteq> 28"
           "c \<noteq> 29" "c \<noteq> 30" "c \<noteq> 31" "c \<ge> 191 \<and> c < 256"
    | (gl) "c \<noteq> 8" "\<not> (c = 10 \<or> c = 13)" "c \<noteq> 24" "c \<noteq> 25" "c \<noteq> 26" "c \<noteq> 27" "c \<noteq> 28"
           "c \<noteq> 29" "c \<noteq> 30" "c \<noteq> 31" "\<not> (c \<ge> 191 \<and> c < 256)"
    by blast
  then show ?thesis
  proof cases
    case bs
    let ?rt1 = "rt\<lparr>cursor := (cursor rt - 1 + chars_len rt) mod chars_len rt\<rparr>"
    have "update_char ?rt1 (cursor ?rt1) 32 = Inr rt'"
      using assms(2) bs by (simp add: print_char_def Let_def)
    moreover have "runtime_ok ?rt1" using assms(1) by (simp only: runtime_ok_cursor)
    ultimately have "logged ?rt1 rt'" by (intro update_char_logged)
    then show ?thesis by (simp only: logged_cursor_left)
  next
    case nl
    have "(case blank_from_cursor rt (line_width rt - cursor rt mod line_width rt) of
            Inl e \<Rightarrow> Inl e
          | Inr rt1 \<Rightarrow>
              if int_truediv (cursor rt) (line_width rt) < line_count rt1 - 1
              then Inr (rt1\<lparr>cursor := (int_truediv (cursor rt) (line_width rt) + 1) * line_width rt1\<rparr>)
              else (case scroll rt1 of
                      Inl e \<Rightarrow> Inl e
                    | Inr rt2 \<Rightarrow>
                        Inr (rt2\<lparr>cursor := int_truediv (cursor rt) (line_width rt) * line_width rt2\<rparr>))) =
          Inr rt'"
      using assms(2) nl by (auto simp add: print_char_def Let_def)
    then show ?thesis using assms(1) by (intro blank_then_newline_logged)
  next
    case mv
    then obtain p where "rt' = rt\<lparr>cursor := p\<rparr>"
      using assms(2) by (auto simp add: print_char_def Let_def)
    then show ?thesis using assms(1) by (simp add: cursor_only_logged)
  next
    case ceol
    then have "blank_from_cursor rt (line_width rt - cursor rt mod line_width rt) = Inr rt'"
      using assms(2) by (simp add: print_char_def Let_def)
    then show ?thesis using assms(1) by (intro blank_from_cursor_logged)
  next
    case ceof
    then have "blank_from_cursor rt (chars_len rt - cursor rt) = Inr rt'"
      using assms(2) by (simp add: print_char_def Let_def)
    then show ?thesis using assms(1) by (intro blank_from_cursor_logged)
  next
    case tb
    then obtain p where "rt' = rt\<lparr>cursor := p\<rparr>"
      using assms(2) by (auto simp add: print_char_def Let_def)
    then show ?thesis using assms(1) by (simp add: cursor_only_logged)
  next
    case gl
    have "(case update_char rt (cursor rt) c of
            Inl e \<Rightarrow> Inl e
          | Inr rt1 \<Rightarrow>
              (let rt2 = rt1\<lparr>cursor := cursor rt1 + 1\<rparr>
               in if cursor rt2 \<ge> chars_len rt2 then
                    (case scroll rt2 of
                       Inl e \<Rightarrow> Inl e
                     | Inr rt3 \<Rightarrow> Inr (rt3\<lparr>cursor := (line_count rt3 - 1) * line_width rt3\<rparr>))
                  else Inr rt2)) = Inr rt'"
      using assms(2) unfolding print_char_def by (simp only: gl if_False)
    then show ?thesis using assms(1) by (intro glyph_then_advance_logged)
  qed
qed

lemma print_logged:
  assumes "runtime_ok rt" "print rt str = Inr rt'"
  shows "logged rt rt'"
  using assms
proof (induction str arbitrary: rt)
  case Nil
  then show ?case by (simp add: logged_refl)
next
  case (Cons c str)
  obtain r1 where r1: "print_char rt c = Inr r1" "print r1 str = Inr rt'"
    using Cons.prems(2) by (auto split: sum.splits)
  have l1: "logged rt r1" using Cons.prems(1) r1(1) by (rule print_char_logged)
  have l2: "logged r1 rt'" using logged_ok [OF l1] r1(2) by (rule Cons.IH)
  show ?case using l1 l2 by (rule logged_trans)
qed

lemma print_at_logged:
  assumes "runtime_ok rt" "print_at rt pos str = Inr rt'"
  shows "logged rt rt'"
proof -
  have p: "print (rt\<lparr>cursor := pos\<rparr>) str = Inr rt'"
    using assms(2) by (auto simp add: print_at_def split: if_splits)
  have "runtime_ok (rt\<lparr>cursor := pos\<rparr>)" using assms(1) by (simp only: runtime_ok_cursor)
  then have "logged (rt\<lparr>cursor := pos\<rparr>) rt'" using p by (rule print_logged)
  then show ?thesis by (simp only: logged_cursor_left)
qed

lemma poke_logged:
  assumes "runtime_ok rt" "poke rt addr val = Inr rt'"
  shows "logged rt rt'"
  using assms by (auto simp add: poke_def logged_refl update_char_logged split: if_splits)

lemma set_px_logged:
  assumes "runtime_ok rt" "set_px rt x y = Inr rt'"
  shows "logged rt rt'"
  using assms
  by (auto simp add: set_px_def Let_def update_char_logged split: if_splits sum.splits)

lemma reset_logged:
  assumes "runtime_ok rt" "reset rt x y = Inr rt'"
  shows "logged rt rt'"
  using assms
  by (auto simp add: reset_def Let_def update_char_logged split: if_splits sum.splits)

lemma do_call_logged:
  assumes "runtime_ok rt" "do_call rt c = Inr rt'"
  shows "logged rt rt'"
  using assms
  by (cases c)
     (simp_all add: cls_logged print_logged print_at_logged poke_logged set_px_logged reset_logged)

lemma do_calls_logged:
  assumes "runtime_ok rt" "do_calls rt cs = Inr rt'"
  shows "logged rt rt'"
  using assms
proof (induction cs arbitrary: rt)
  case Nil
  then show ?case by (simp add: logged_refl)
next
  case (Cons c cs)
  obtain r1 where r1: "do_call rt c = Inr r1" "do_calls r1 cs = Inr rt'"
    using Cons.prems(2) by (auto split: sum.splits)
  have l1: "logged rt r1" using Cons.prems(1) r1(1) by (rule do_call_logged)
  have l2: "logged r1 rt'" using logged_ok [OF l1] r1(2) by (rule Cons.IH)
  show ?case using l1 l2 by (rule logged_trans)
qed

lemma calls_keep_buffer_shape:
  assumes "runtime_ok rt" "do_calls rt cs = Inr rt'"
  shows "runtime_ok rt' \<and> length (chars rt') = length (chars rt) \<and>
         line_width rt' = line_width rt \<and> line_count rt' = line_count rt"
proof -
  have l: "logged rt rt'" using assms by (rule do_calls_logged)
  have "int (length (chars rt')) = int (length (chars rt))"
    using runtime_ok_len [OF assms(1)] runtime_ok_len [OF logged_ok [OF l]] l
    by (simp add: logged_def)
  then show ?thesis using l by (simp add: logged_def)
qed

lemma update_char_twice:
  assumes "runtime_ok rt" "0 \<le> pos" "pos < chars_len rt" "0 \<le> c" "c < 256"
  shows "\<exists>rt1. update_char rt pos c = Inr rt1 \<and> update_char rt1 pos c = Inr rt1 \<and>
           events rt1 = events rt @ (if chars rt ! nat pos = c then [] else [CellRedraw pos c])"
proof -
  obtain rt1 where r1: "update_char rt pos c = Inr rt1" "chars rt1 = (chars rt)[nat pos := c]"
      "runtime_ok rt1" "chars_len rt1 = chars_len rt"
    using update_char_result [OF assms] by blast
  have lt: "nat pos < length (chars rt)" using assms(2,3) runtime_ok_len [OF assms(1)] by linarith
  have same: "chars rt1 ! nat pos = c" using r1(2) lt by simp
  have p: "pos < chars_len rt1" using assms(3) r1(4) by simp
  have again: "update_char rt1 pos c = Inr rt1"
    using update_char_ok [OF r1(3) assms(2) p assms(4,5)] same by simp
  have ev: "events rt1 = events rt @ (if chars rt ! nat pos = c then [] else [CellRedraw pos c])"
    using r1(1) unfolding update_char_ok [OF assms] by (auto split: if_splits)
  show ?thesis using r1(1) again ev by blast
qed

lemma row_of_cell:
  fixes r k w :: int
  assumes "0 \<le> k" "k < w"
  shows "(r * w + k) div w = r" "(r * w + k) mod w = k"
  using assms by (simp_all add: div_pos_pos_trivial)

lemma cursor_row_bound:
  assumes "runtime_ok rt" "0 \<le> cursor rt" "cursor rt < chars_len rt"
  shows "0 \<le> cursor rt div line_width rt" "cursor rt div line_width rt < line_count rt"
proof -
  have W: "0 < line_width rt" and L: "chars_len rt = line_width rt * line_count rt"
    using assms(1) by (simp_all add: runtime_ok_def)
  show "0 \<le> cursor rt div line_width rt" using assms(2) W by (simp add: pos_imp_zdiv_nonneg_iff)
  show "cursor rt div line_width rt < line_count rt"
  proof (rule ccontr)
    assume "\<not> cursor rt div line_width rt < line_count rt"
    then have "line_count rt \<le> cursor rt div line_width rt" by simp
    then have "line_count rt * line_width rt \<le> cursor rt div line_width rt * line_width rt"
      using W by (intro mult_right_mono) simp_all
    also have "\<dots> \<le> cursor rt div line_width rt * line_width rt + cursor rt mod line_width rt"
    proof -
      have "0 \<le> cursor rt mod line_width rt" using W by simp
      then show ?thesis by linarith
    qed
    also have "\<dots> = cursor rt" by simp
    finally show False using assms(3) L by (simp add: mult.commute)
  qed
qed

lemma tab_within_row:
  assumes "runtime_ok rt" "0 \<le> cursor rt" "cursor rt < chars_len rt"
    and "191 \<le> c" "c < 256" "c - 191 < line_width rt"
  shows "\<exists>rt'. print_char rt c = Inr rt' \<and> chars rt' = chars rt \<and> events rt' = events rt \<and>
           cursor rt' div line_width rt = cursor rt div line_width rt \<and>
           cursor rt' mod line_width rt = max (cursor rt mod line_width rt) (c - 191) \<and>
           0 \<le> cursor rt' \<and> cursor rt' < chars_len rt"
proof -
  let ?w = "line_width rt" and ?r = "cursor rt div line_width rt"
  let ?k = "max (cursor rt mod line_width rt) (c - 191)"
  have W: "0 < ?w" and L: "chars_len rt = ?w * line_count rt"
    using assms(1) by (simp_all add: runtime_ok_def)
  have k: "0 \<le> ?k" "?k < ?w" using W assms(4,6) by simp_all
  note r = cursor_row_bound [OF assms(1-3)]
  have d: "int_truediv (cursor rt) ?w = ?r" using assms(2) W by (rule int_truediv_nonneg)
  have p: "print_char rt c = Inr (rt\<lparr>cursor := ?r * ?w + ?k\<rparr>)"
    using assms(4,5) by (simp add: print_char_def Let_def d max_def)
  have b: "0 \<le> ?r * ?w + ?k" "?r * ?w + ?k < chars_len rt"
    unfolding L using r k by (rule cell_index_bounds)+
  show ?thesis
    using p b row_of_cell [OF k, of ?r] by simp
qed

section \<open>Cursor\<close>

text \<open>Claim C1. The claim is that the cursor is in \<open>[0, chars_len)\<close> after every
  call. The code breaks it: in the 64-column runtime \<open>print_at(960, chr(255))\<close>
  leaves the cursor at 1024, which is \<open>chars_len\<close>, and the next glyph printed
  raises IndexError. The comment of the tab branch reads "191-255 tab to 0-63", but the
  branch computes \<open>c - 191\<close>, which is 64 for code 255, and adds it to the row
  start without the modulo the other cursor moves have.\<close>

theorem tab_255_cursor_out_of_range:
  "print_at (projr (Runtime_init 64)) 960 [255] = Inr ((projr (Runtime_init 64))\<lparr>cursor := 1024\<rparr>) \<and>
   chars_len (projr (Runtime_init 64)) = 1024 \<and>
   print ((projr (Runtime_init 64))\<lparr>cursor := 1024\<rparr>) [65] = Inl IndexError"
  by (simp add: Runtime_init_64 print_at_def print_char_def int_truediv_def Let_def
        update_char_def list_get_def list_index_def)

text \<open>Claim C2. The claim is that a tab code never changes the row. The code breaks it when
  \<open>c - 191\<close> is not a column of the row: in the 64-column runtime code 255 moves
  the cursor from position 0 to position 64, the start of row 1; in the 32-column runtime
  code 231, which \<open>tab(40)\<close> returns, moves it from position 0 to position 40,
  column 8 of row 1.\<close>

theorem tab_leaves_row:
  "print_at (projr (Runtime_init 64)) 0 [255] = Inr ((projr (Runtime_init 64))\<lparr>cursor := 64\<rparr>) \<and>
   line_width (projr (Runtime_init 64)) = 64 \<and>
   tab (projr (Runtime_init 32)) 40 = Inr (231, projr (Runtime_init 32)) \<and>
   print_at (projr (Runtime_init 32)) 0 [231] = Inr ((projr (Runtime_init 32))\<lparr>cursor := 40\<rparr>) \<and>
   line_width (projr (Runtime_init 32)) = 32"
  by (simp add: Runtime_init_64 Runtime_init_32 print_at_def print_char_def int_truediv_def Let_def
        tab_def)

section \<open>Semigraphics\<close>

text \<open>Claim C3. For a pixel coordinate with \<open>0 \<le> x < 2 * line_width\<close> and
  \<open>0 \<le> y < 3 * line_count\<close>, \<open>set\<close>, \<open>reset\<close> and
  \<open>point\<close> all work on the cell of index \<open>(y div 3) * line_width + (x div
  2)\<close>, which lies in the buffer, and on bit number \<open>2 * (y mod 3) + (x mod
  2)\<close>, which is at most 5: \<open>point\<close> is true exactly when that cell has
  its top bit and that bit set, \<open>set\<close> stores the graphics base of the cell with
  that bit set, \<open>reset\<close> stores it with that bit cleared.\<close>

theorem pixel_addressing:
  assumes "runtime_ok rt" "0 \<le> x" "x < 2 * line_width rt" "0 \<le> y" "y < 3 * line_count rt"
  shows "0 \<le> spec_cell_index (line_width rt) x y \<and>
         spec_cell_index (line_width rt) x y < chars_len rt \<and>
         spec_bit_number x y \<le> 5 \<and>
         point rt x y =
           Inr (bit (chars rt ! nat (spec_cell_index (line_width rt) x y)) 7 \<and>
                bit (chars rt ! nat (spec_cell_index (line_width rt) x y)) (spec_bit_number x y), rt) \<and>
         (\<exists>rt'. set_px rt x y = Inr rt' \<and>
            chars rt' = (chars rt)[nat (spec_cell_index (line_width rt) x y) :=
              set_bit (spec_bit_number x y)
                (graphics_base (chars rt ! nat (spec_cell_index (line_width rt) x y)))]) \<and>
         (\<exists>rt'. reset rt x y = Inr rt' \<and>
            chars rt' = (chars rt)[nat (spec_cell_index (line_width rt) x y) :=
              unset_bit (spec_bit_number x y)
                (graphics_base (chars rt ! nat (spec_cell_index (line_width rt) x y)))])"
proof -
  have s: "\<exists>rt'. set_px rt x y = Inr rt' \<and>
            chars rt' = (chars rt)[nat (spec_cell_index (line_width rt) x y) :=
              set_bit (spec_bit_number x y)
                (graphics_base (chars rt ! nat (spec_cell_index (line_width rt) x y)))]"
    using set_px_result [OF assms] by blast
  have r: "\<exists>rt'. reset rt x y = Inr rt' \<and>
            chars rt' = (chars rt)[nat (spec_cell_index (line_width rt) x y) :=
              unset_bit (spec_bit_number x y)
                (graphics_base (chars rt ! nat (spec_cell_index (line_width rt) x y)))]"
    using reset_result [OF assms] by blast
  show ?thesis
    using spec_cell_index_bounds [OF assms] spec_bit_number_le5 [of x y] point_eq [OF assms] s r
    by (intro conjI)
qed

theorem pixel_addressing_witness:
  "runtime_ok (projr (Runtime_init 64)) \<and>
   spec_cell_index 64 5 7 = 130 \<and> spec_bit_number 5 7 = 3 \<and>
   point (projr (Runtime_init 64)) 5 7 = Inr (False, projr (Runtime_init 64)) \<and>
   (\<exists>rt'. set_px (projr (Runtime_init 64)) 5 7 = Inr rt' \<and>
          chars rt' = (chars (projr (Runtime_init 64)))[130 := 136]) \<and>
   (\<exists>rt'. reset (projr (Runtime_init 64)) 5 7 = Inr rt' \<and>
          chars rt' = (chars (projr (Runtime_init 64)))[130 := 128])"
proof -
  have ok: "runtime_ok (projr (Runtime_init 64))" by (rule Runtime_init_64_ok)
  have w: "line_width (projr (Runtime_init 64)) = 64" "line_count (projr (Runtime_init 64)) = 16"
    by (simp_all add: Runtime_init_def)
  have i: "spec_cell_index 64 5 7 = 130" by (simp add: spec_cell_index_def)
  have n: "spec_bit_number 5 7 = 3" by (simp add: spec_bit_number_def)
  have c: "chars (projr (Runtime_init 64)) ! 130 = 32"
    by (simp add: Runtime_init_def range1_def)
  have g: "graphics_base 32 = 128" by (simp add: graphics_base_def)
  have s: "set_bit 3 (128::int) = 136" by (simp add: set_bit_eq_or)
  have u: "unset_bit 3 (128::int) = 128" by (simp add: unset_bit_eq_and_not)
  have b: "\<not> bit (32::int) 7" by simp
  show ?thesis
    using pixel_addressing [OF ok, of 5 7] ok
    by (simp add: w i n c g s u b)
qed

text \<open>Claim C4. For every valid pixel coordinate and every well-formed buffer,
  \<open>set(x,y)\<close> returns and \<open>point(x,y)\<close> is then true;
  \<open>reset(x,y)\<close> returns and \<open>point(x,y)\<close> is then false.\<close>

theorem set_reset_then_point:
  assumes "runtime_ok rt" "0 \<le> x" "x < 2 * line_width rt" "0 \<le> y" "y < 3 * line_count rt"
  shows "(\<exists>rt'. set_px rt x y = Inr rt' \<and> point rt' x y = Inr (True, rt')) \<and>
         (\<exists>rt'. reset rt x y = Inr rt' \<and> point rt' x y = Inr (False, rt'))"
proof -
  note b = spec_cell_index_bounds [OF assms]
  let ?i = "spec_cell_index (line_width rt) x y"
  let ?n = "spec_bit_number x y"
  have lt: "nat ?i < length (chars rt)" using b runtime_ok_len [OF assms(1)] by linarith
  note gb = graphics_base_code [OF runtime_ok_code [OF assms(1) lt]]
  have n7: "?n \<noteq> 7" using spec_bit_number_le5 [of x y] by linarith
  obtain r1 where r1: "set_px rt x y = Inr r1"
      "chars r1 = (chars rt)[nat ?i := set_bit ?n (graphics_base (chars rt ! nat ?i))]"
      "runtime_ok r1" "line_width r1 = line_width rt" "line_count r1 = line_count rt"
    using set_px_result [OF assms] by blast
  have "point r1 x y = Inr (bit (chars r1 ! nat ?i) 7 \<and> bit (chars r1 ! nat ?i) ?n, r1)"
    using point_eq [of r1 x y] r1(3-5) assms(2-5) by simp
  moreover have "chars r1 ! nat ?i = set_bit ?n (graphics_base (chars rt ! nat ?i))"
    using r1(2) lt by simp
  ultimately have p1: "point r1 x y = Inr (True, r1)"
    using gb(3) by (simp add: bit_set_bit_iff)
  obtain r2 where r2: "reset rt x y = Inr r2"
      "chars r2 = (chars rt)[nat ?i := unset_bit ?n (graphics_base (chars rt ! nat ?i))]"
      "runtime_ok r2" "line_width r2 = line_width rt" "line_count r2 = line_count rt"
    using reset_result [OF assms] by blast
  have "point r2 x y = Inr (bit (chars r2 ! nat ?i) 7 \<and> bit (chars r2 ! nat ?i) ?n, r2)"
    using point_eq [of r2 x y] r2(3-5) assms(2-5) by simp
  moreover have "chars r2 ! nat ?i = unset_bit ?n (graphics_base (chars rt ! nat ?i))"
    using r2(2) lt by simp
  ultimately have p2: "point r2 x y = Inr (False, r2)"
    by (simp add: bit_unset_bit_iff)
  show ?thesis using r1(1) p1 r2(1) p2 by blast
qed

theorem set_reset_then_point_witness:
  "runtime_ok (projr (Runtime_init 64)) \<and>
   (\<exists>rt'. set_px (projr (Runtime_init 64)) 127 47 = Inr rt' \<and> point rt' 127 47 = Inr (True, rt')) \<and>
   (\<exists>rt'. reset (projr (Runtime_init 64)) 127 47 = Inr rt' \<and> point rt' 127 47 = Inr (False, rt'))"
proof -
  have ok: "runtime_ok (projr (Runtime_init 64))" by (rule Runtime_init_64_ok)
  have w: "line_width (projr (Runtime_init 64)) = 64" "line_count (projr (Runtime_init 64)) = 16"
    by (simp_all add: Runtime_init_def)
  show ?thesis
    using set_reset_then_point [OF ok, of 127 47] ok by (simp add: w)
qed

text \<open>Claim C5. \<open>set(x,y)\<close> and \<open>reset(x,y)\<close> leave the other five
  sub-pixels of the cell alone: for every valid coordinate \<open>(x',y')\<close> of the
  same cell and another bit, \<open>point(x',y')\<close> returns after the call what it
  returned before.\<close>

theorem set_reset_frame:
  assumes "runtime_ok rt" "0 \<le> x" "x < 2 * line_width rt" "0 \<le> y" "y < 3 * line_count rt"
    and "0 \<le> x'" "x' < 2 * line_width rt" "0 \<le> y'" "y' < 3 * line_count rt"
    and "spec_cell_index (line_width rt) x' y' = spec_cell_index (line_width rt) x y"
    and "spec_bit_number x' y' \<noteq> spec_bit_number x y"
  shows "(\<exists>rt' v. set_px rt x y = Inr rt' \<and> point rt x' y' = Inr (v, rt) \<and>
                   point rt' x' y' = Inr (v, rt')) \<and>
         (\<exists>rt' v. reset rt x y = Inr rt' \<and> point rt x' y' = Inr (v, rt) \<and>
                   point rt' x' y' = Inr (v, rt'))"
proof -
  note b = spec_cell_index_bounds [OF assms(1-5)]
  let ?i = "spec_cell_index (line_width rt) x y"
  let ?n = "spec_bit_number x y"
  let ?m = "spec_bit_number x' y'"
  let ?b = "chars rt ! nat ?i"
  have lt: "nat ?i < length (chars rt)" using b runtime_ok_len [OF assms(1)] by linarith
  note gb = graphics_base_code [OF runtime_ok_code [OF assms(1) lt]]
  have n7: "?n \<noteq> 7" using spec_bit_number_le5 [of x y] by linarith
  have m7: "?m \<noteq> 7" using spec_bit_number_le5 [of x' y'] by linarith
  have before: "point rt x' y' = Inr (bit ?b 7 \<and> bit ?b ?m, rt)"
    using point_eq [OF assms(1,6-9)] by (simp add: assms(10))
  have base: "bit (graphics_base ?b) ?m = (bit ?b 7 \<and> bit ?b ?m)"
    using m7 by (simp add: graphics_base_def bit_128)
  obtain r1 where r1: "set_px rt x y = Inr r1"
      "chars r1 = (chars rt)[nat ?i := set_bit ?n (graphics_base ?b)]"
      "runtime_ok r1" "line_width r1 = line_width rt" "line_count r1 = line_count rt"
    using set_px_result [OF assms(1-5)] by blast
  have "point r1 x' y' = Inr (bit (chars r1 ! nat ?i) 7 \<and> bit (chars r1 ! nat ?i) ?m, r1)"
    using point_eq [of r1 x' y'] r1(3-5) assms(6-10) by simp
  moreover have "chars r1 ! nat ?i = set_bit ?n (graphics_base ?b)"
    using r1(2) lt by simp
  ultimately have p1: "point r1 x' y' = Inr (bit ?b 7 \<and> bit ?b ?m, r1)"
    using gb(3) assms(11) base by (simp add: bit_set_bit_iff)
  obtain r2 where r2: "reset rt x y = Inr r2"
      "chars r2 = (chars rt)[nat ?i := unset_bit ?n (graphics_base ?b)]"
      "runtime_ok r2" "line_width r2 = line_width rt" "line_count r2 = line_count rt"
    using reset_result [OF assms(1-5)] by blast
  have "point r2 x' y' = Inr (bit (chars r2 ! nat ?i) 7 \<and> bit (chars r2 ! nat ?i) ?m, r2)"
    using point_eq [of r2 x' y'] r2(3-5) assms(6-10) by simp
  moreover have "chars r2 ! nat ?i = unset_bit ?n (graphics_base ?b)"
    using r2(2) lt by simp
  ultimately have p2: "point r2 x' y' = Inr (bit ?b 7 \<and> bit ?b ?m, r2)"
    using gb(3) assms(11) base n7 by (simp add: bit_unset_bit_iff)
  show ?thesis using r1(1) p1 r2(1) p2 before by blast
qed

theorem set_reset_frame_witness:
  "runtime_ok (projr (Runtime_init 64)) \<and>
   spec_cell_index 64 3 4 = spec_cell_index 64 2 5 \<and>
   spec_bit_number 3 4 \<noteq> spec_bit_number 2 5 \<and>
   (\<exists>rt' v. set_px (projr (Runtime_init 64)) 2 5 = Inr rt' \<and>
        point (projr (Runtime_init 64)) 3 4 = Inr (v, projr (Runtime_init 64)) \<and>
        point rt' 3 4 = Inr (v, rt')) \<and>
   (\<exists>rt' v. reset (projr (Runtime_init 64)) 2 5 = Inr rt' \<and>
        point (projr (Runtime_init 64)) 3 4 = Inr (v, projr (Runtime_init 64)) \<and>
        point rt' 3 4 = Inr (v, rt'))"
proof -
  have ok: "runtime_ok (projr (Runtime_init 64))" by (rule Runtime_init_64_ok)
  have w: "line_width (projr (Runtime_init 64)) = 64" "line_count (projr (Runtime_init 64)) = 16"
    by (simp_all add: Runtime_init_def)
  have i: "spec_cell_index 64 3 4 = spec_cell_index 64 2 5" by (simp add: spec_cell_index_def)
  have n: "spec_bit_number 3 4 \<noteq> spec_bit_number 2 5" by (simp add: spec_bit_number_def)
  show ?thesis
    using set_reset_frame [OF ok, of 2 5 3 4] ok i n by (simp add: w)
qed

section \<open>Scrolling\<close>

text \<open>Claim C6. \<open>_scroll\<close> returns, after it cell \<open>i\<close> holds what cell
  \<open>i + line_width\<close> held for every \<open>i\<close> in \<open>[0, chars_len -
  line_width)\<close>, and every cell of the last row is 32. Printing
  \<open>line_width\<close> non-control codes from column 0 of row \<open>r\<close> returns;
  when \<open>r\<close> is not the last row the cursor ends at the start of row \<open>r +
  1\<close>, no scroll is notified and the row holds the codes printed; when
  \<open>r\<close> is the last row exactly one scroll is notified, the cursor ends at the
  start of the last row and the last row is blank.\<close>

theorem scroll_and_full_row_print:
  assumes "runtime_ok rt"
  shows "(\<exists>rt'. scroll rt = Inr rt' \<and> length (chars rt') = length (chars rt) \<and>
            cursor rt' = cursor rt \<and>
            (\<forall>i. 0 \<le> i \<and> i < chars_len rt - line_width rt \<longrightarrow>
                 chars rt' ! nat i = chars rt ! nat (i + line_width rt)) \<and>
            (\<forall>i. chars_len rt - line_width rt \<le> i \<and> i < chars_len rt \<longrightarrow>
                 chars rt' ! nat i = 32)) \<and>
         (int (length str) = line_width rt \<and> list_all non_control str \<and>
          0 \<le> r \<and> r < line_count rt \<and> cursor rt = r * line_width rt \<longrightarrow>
            (\<exists>rt'. print rt str = Inr rt' \<and>
               (if r < line_count rt - 1
                then cursor rt' = (r + 1) * line_width rt \<and>
                     count_list (events rt') ScrollBlit = count_list (events rt) ScrollBlit \<and>
                     chars rt' = take (nat (cursor rt)) (chars rt) @ str @
                                 drop (nat (cursor rt) + length str) (chars rt)
                else cursor rt' = (line_count rt - 1) * line_width rt \<and>
                     count_list (events rt') ScrollBlit =
                       count_list (events rt) ScrollBlit + 1 \<and>
                     drop (nat (chars_len rt - line_width rt)) (chars rt') =
                       replicate (nat (line_width rt)) 32)))"
proof (intro conjI impI)
  show "\<exists>rt'. scroll rt = Inr rt' \<and> length (chars rt') = length (chars rt) \<and>
            cursor rt' = cursor rt \<and>
            (\<forall>i. 0 \<le> i \<and> i < chars_len rt - line_width rt \<longrightarrow>
                 chars rt' ! nat i = chars rt ! nat (i + line_width rt)) \<and>
            (\<forall>i. chars_len rt - line_width rt \<le> i \<and> i < chars_len rt \<longrightarrow>
                 chars rt' ! nat i = 32)"
    using assms by (rule scroll_pointwise)
next
  assume h: "int (length str) = line_width rt \<and> list_all non_control str \<and>
          0 \<le> r \<and> r < line_count rt \<and> cursor rt = r * line_width rt"
  show "\<exists>rt'. print rt str = Inr rt' \<and>
               (if r < line_count rt - 1
                then cursor rt' = (r + 1) * line_width rt \<and>
                     count_list (events rt') ScrollBlit = count_list (events rt) ScrollBlit \<and>
                     chars rt' = take (nat (cursor rt)) (chars rt) @ str @
                                 drop (nat (cursor rt) + length str) (chars rt)
                else cursor rt' = (line_count rt - 1) * line_width rt \<and>
                     count_list (events rt') ScrollBlit =
                       count_list (events rt) ScrollBlit + 1 \<and>
                     drop (nat (chars_len rt - line_width rt)) (chars rt') =
                       replicate (nat (line_width rt)) 32)"
  proof (cases "r < line_count rt - 1")
    case True
    then show ?thesis using full_row_noscroll [OF assms, of str r] h by simp
  next
    case False
    then have "r = line_count rt - 1" using h by linarith
    then show ?thesis using full_row_last [OF assms, of str] h by simp
  qed
qed

theorem scroll_and_full_row_print_witness:
  "runtime_ok (projr (Runtime_init 32)) \<and>
   (\<exists>rt'. scroll (projr (Runtime_init 32)) = Inr rt' \<and> length (chars rt') = 512 \<and>
          cursor rt' = 0) \<and>
   (\<exists>rt'. print (projr (Runtime_init 32)) (replicate 32 65) = Inr rt' \<and> cursor rt' = 32 \<and>
          count_list (events rt') ScrollBlit = 0) \<and>
   (\<exists>rt'. print ((projr (Runtime_init 32))\<lparr>cursor := 480\<rparr>) (replicate 32 65) = Inr rt' \<and>
          cursor rt' = 480 \<and> count_list (events rt') ScrollBlit = 1 \<and>
          drop 480 (chars rt') = replicate 32 32)"
proof -
  let ?R = "projr (Runtime_init 32)"
  have ok: "runtime_ok ?R" by (rule Runtime_init_32_ok)
  then have ok': "runtime_ok (?R\<lparr>cursor := 480\<rparr>)" by (simp only: runtime_ok_cursor)
  have nc: "list_all non_control (replicate 32 65)"
    by (simp add: list_all_iff non_control_def)
  have f: "line_width ?R = 32" "line_count ?R = 16" "chars_len ?R = 512" "cursor ?R = 0"
    "events ?R = []" "length (chars ?R) = 512"
    by (simp_all add: Runtime_init_32)
  have a: "\<exists>rt'. scroll ?R = Inr rt' \<and> length (chars rt') = 512 \<and> cursor rt' = 0"
    using scroll_and_full_row_print [OF ok, of "replicate 32 65" 0] f by auto
  have b: "\<exists>rt'. print ?R (replicate 32 65) = Inr rt' \<and> cursor rt' = 32 \<and>
          count_list (events rt') ScrollBlit = 0"
    using scroll_and_full_row_print [OF ok, of "replicate 32 65" 0] nc f by auto
  have c: "\<exists>rt'. print (?R\<lparr>cursor := 480\<rparr>) (replicate 32 65) = Inr rt' \<and>
          cursor rt' = 480 \<and> count_list (events rt') ScrollBlit = 1 \<and>
          drop 480 (chars rt') = replicate 32 32"
    using scroll_and_full_row_print [OF ok', of "replicate 32 65" 15] nc f by auto
  show ?thesis using ok a b c by blast
qed

section \<open>Video memory\<close>

text \<open>Claim C7. \<open>peek(15360+k)\<close> returns the code stored at buffer index
  \<open>k\<close> for every \<open>k\<close> in \<open>[0, chars_len)\<close>;
  \<open>peek\<close> at an address outside the window returns 0 and \<open>poke\<close>
  there leaves the whole runtime as it was; \<open>poke(15360+k, v)\<close> with
  \<open>v\<close> in \<open>[0, 255]\<close> followed by \<open>peek(15360+k)\<close>
  returns \<open>v\<close>.\<close>

theorem peek_poke_window:
  assumes "runtime_ok rt"
  shows "(0 \<le> k \<and> k < chars_len rt \<longrightarrow> peek rt (15360 + k) = Inr (chars rt ! nat k, rt)) \<and>
         (\<not> (15360 \<le> addr \<and> addr < 15360 + chars_len rt) \<longrightarrow>
            peek rt addr = Inr (0, rt) \<and> poke rt addr val = Inr rt) \<and>
         (0 \<le> k \<and> k < chars_len rt \<and> 0 \<le> v \<and> v \<le> 255 \<longrightarrow>
            (\<exists>rt'. poke rt (15360 + k) v = Inr rt' \<and> peek rt' (15360 + k) = Inr (v, rt')))"
  using assms peek_in [of rt k] peek_out [of addr rt] poke_out [of addr rt val]
    poke_peek [of rt k v]
  by blast

theorem peek_poke_window_witness:
  "runtime_ok (projr (Runtime_init 64)) \<and>
   peek (projr (Runtime_init 64)) (15360 + 5) = Inr (32, projr (Runtime_init 64)) \<and>
   peek (projr (Runtime_init 64)) 16384 = Inr (0, projr (Runtime_init 64)) \<and>
   poke (projr (Runtime_init 64)) 16384 65 = Inr (projr (Runtime_init 64)) \<and>
   (\<exists>rt'. poke (projr (Runtime_init 64)) (15360 + 5) 65 = Inr rt' \<and>
          peek rt' (15360 + 5) = Inr (65, rt'))"
proof -
  have ok: "runtime_ok (projr (Runtime_init 64))" by (rule Runtime_init_64_ok)
  have l: "chars_len (projr (Runtime_init 64)) = 1024" by (simp add: Runtime_init_def)
  have c: "chars (projr (Runtime_init 64)) ! nat 5 = 32"
    by (simp add: Runtime_init_def range1_def)
  show ?thesis
    using peek_poke_window [OF ok, of 5 16384 65 65] ok l c by simp
qed

text \<open>Claim C8, as stated, fails: the claim is that \<open>poke\<close> returns normally for
  every address and every value, but \<open>_update_char\<close> asserts \<open>0 \<le> char
  < 256\<close>, so \<open>poke(15360, 256)\<close> raises AssertionError.\<close>

theorem poke_bad_value_counterexample:
  "poke (projr (Runtime_init 64)) 15360 256 = Inl AssertionError"
  by (simp add: Runtime_init_64 poke_def update_char_def)

text \<open>Claim C8, as amended: \<open>peek\<close> returns for every address; \<open>poke\<close>
  returns with the runtime unchanged for every address outside the window, whatever the
  value; inside the window it returns with the value stored as the cell code when the value
  is in \<open>[0, 255]\<close> and raises AssertionError otherwise.\<close>

theorem peek_poke_total:
  assumes "runtime_ok rt"
  shows "(\<exists>v. peek rt addr = Inr (v, rt)) \<and>
         (\<not> (15360 \<le> addr \<and> addr < 15360 + chars_len rt) \<longrightarrow> poke rt addr val = Inr rt) \<and>
         (15360 \<le> addr \<and> addr < 15360 + chars_len rt \<and> 0 \<le> val \<and> val < 256 \<longrightarrow>
            (\<exists>rt'. poke rt addr val = Inr rt' \<and>
                   chars rt' = (chars rt)[nat (addr - 15360) := val])) \<and>
         (15360 \<le> addr \<and> addr < 15360 + chars_len rt \<and> \<not> (0 \<le> val \<and> val < 256) \<longrightarrow>
            poke rt addr val = Inl AssertionError)"
proof (intro conjI impI)
  show "\<exists>v. peek rt addr = Inr (v, rt)" using assms by (rule peek_total)
next
  assume "\<not> (15360 \<le> addr \<and> addr < 15360 + chars_len rt)"
  then show "poke rt addr val = Inr rt" by (rule poke_out)
next
  assume h: "15360 \<le> addr \<and> addr < 15360 + chars_len rt \<and> 0 \<le> val \<and> val < 256"
  then have p: "poke rt addr val = update_char rt (addr - 15360) val" by (simp add: poke_def)
  have "\<exists>rt'. update_char rt (addr - 15360) val = Inr rt' \<and>
          chars rt' = (chars rt)[nat (addr - 15360) := val]"
    using update_char_result [OF assms, of "addr - 15360" val] h by auto
  then show "\<exists>rt'. poke rt addr val = Inr rt' \<and> chars rt' = (chars rt)[nat (addr - 15360) := val]"
    by (simp only: p)
next
  assume h: "15360 \<le> addr \<and> addr < 15360 + chars_len rt \<and> \<not> (0 \<le> val \<and> val < 256)"
  then show "poke rt addr val = Inl AssertionError"
    by (simp add: poke_def update_char_def)
qed

theorem peek_poke_total_witness:
  "runtime_ok (projr (Runtime_init 64)) \<and>
   (\<exists>v. peek (projr (Runtime_init 64)) (- 1) = Inr (v, projr (Runtime_init 64))) \<and>
   poke (projr (Runtime_init 64)) 16384 999 = Inr (projr (Runtime_init 64)) \<and>
   (\<exists>rt'. poke (projr (Runtime_init 64)) 16383 255 = Inr rt' \<and>
          chars rt' = (chars (projr (Runtime_init 64)))[1023 := 255]) \<and>
   poke (projr (Runtime_init 64)) 16383 (- 1) = Inl AssertionError"
proof -
  have ok: "runtime_ok (projr (Runtime_init 64))" by (rule Runtime_init_64_ok)
  have l: "chars_len (projr (Runtime_init 64)) = 1024" by (simp add: Runtime_init_64)
  show ?thesis
    using peek_poke_total [OF ok, of "- 1" 0] peek_poke_total [OF ok, of 16384 999]
      peek_poke_total [OF ok, of 16383 255] peek_poke_total [OF ok, of 16383 "- 1"] ok l
    by simp
qed

text \<open>Claim C10. \<open>point\<close> and \<open>peek\<close> are queries: for every valid pixel
  coordinate and every address they return, and the runtime they leave behind has the same
  buffer and the same cursor.\<close>

theorem point_peek_pure:
  assumes "runtime_ok rt" "0 \<le> x" "x < 2 * line_width rt" "0 \<le> y" "y < 3 * line_count rt"
  shows "(\<exists>v rt'. point rt x y = Inr (v, rt') \<and> chars rt' = chars rt \<and> cursor rt' = cursor rt) \<and>
         (\<exists>v rt'. peek rt addr = Inr (v, rt') \<and> chars rt' = chars rt \<and> cursor rt' = cursor rt)"
  using point_eq [OF assms] peek_total [OF assms(1), of addr] by auto

theorem point_peek_pure_witness:
  "runtime_ok (projr (Runtime_init 32)) \<and>
   (\<exists>v rt'. point (projr (Runtime_init 32)) 63 47 = Inr (v, rt') \<and>
        chars rt' = chars (projr (Runtime_init 32)) \<and> cursor rt' = cursor (projr (Runtime_init 32))) \<and>
   (\<exists>v rt'. peek (projr (Runtime_init 32)) 15871 = Inr (v, rt') \<and>
        chars rt' = chars (projr (Runtime_init 32)) \<and> cursor rt' = cursor (projr (Runtime_init 32)))"
proof -
  have ok: "runtime_ok (projr (Runtime_init 32))" by (rule Runtime_init_32_ok)
  have w: "line_width (projr (Runtime_init 32)) = 32" "line_count (projr (Runtime_init 32)) = 16"
    by (simp_all add: Runtime_init_def)
  show ?thesis
    using point_peek_pure [OF ok, of 63 47 15871] ok w by simp
qed

section \<open>Redraw notifications\<close>

text \<open>Claim C9, as stated, fails twice. The claim is that every buffer mutation goes through the
  per-cell update primitive, but \<open>_scroll\<close> and \<open>_cls\<close> write
  \<open>self.chars\<close> directly and redraw in bulk: after \<open>poke(15424,
  65)\<close>, \<open>cls()\<close> changes cell 64 from 65 to 32 and adds the clear
  notification only. And the claim is that writing the same code twice gives exactly one
  redraw notification, but a code the cell already holds gives none: \<open>poke(15360,
  32)\<close> on a blank screen leaves the runtime as it was.\<close>

theorem bulk_writes_counterexample:
  "poke (projr (Runtime_init 64)) 15424 65 =
     Inr ((projr (Runtime_init 64))\<lparr>chars := (replicate 1024 32)[64 := 65],
                                     events := [CellRedraw 64 65]\<rparr>) \<and>
   cls ((projr (Runtime_init 64))\<lparr>chars := (replicate 1024 32)[64 := 65],
                                   events := [CellRedraw 64 65]\<rparr>) =
     Inr ((projr (Runtime_init 64))\<lparr>chars := replicate 1024 32,
                                     events := [CellRedraw 64 65, ClearFill]\<rparr>) \<and>
   (replicate 1024 (32::int))[64 := 65] ! 64 = 65 \<and> replicate 1024 (32::int) ! 64 = 32 \<and>
   poke (projr (Runtime_init 64)) 15360 32 = Inr (projr (Runtime_init 64)) \<and>
   events (projr (Runtime_init 64)) = []"
proof -
  let ?R = "projr (Runtime_init 64)"
  let ?R1 = "?R\<lparr>chars := (replicate 1024 32)[64 := 65], events := [CellRedraw 64 65]\<rparr>"
  have ok: "runtime_ok ?R" by (rule Runtime_init_64_ok)
  have a: "poke ?R 15424 65 = Inr ?R1"
    by (simp add: Runtime_init_64 poke_def update_char_def list_get_def list_set_def list_index_def)
  have ok1: "runtime_ok ?R1"
    using runtime_ok_update [OF ok, where c = 65 and k = 64 and ev = "[CellRedraw 64 65]"]
    by (simp add: Runtime_init_64)
  have b: "cls ?R1 = Inr (?R\<lparr>chars := replicate 1024 32, events := [CellRedraw 64 65, ClearFill]\<rparr>)"
    by (simp add: cls_result [OF ok1]) (simp add: Runtime_init_64)
  have c: "poke ?R 15360 32 = Inr ?R"
    by (simp add: Runtime_init_64 poke_def update_char_def list_get_def list_index_def)
  show ?thesis using a b c by (simp add: Runtime_init_64)
qed

text \<open>Claim C9, as amended: the update primitive is a no-op when the new code equals the current
  one and otherwise stores the code and issues one redraw notification for the cell, so that
  writing the same code twice gives one notification when the cell held another code and
  none when it held that code; \<open>_scroll\<close> and \<open>_cls\<close> write the
  buffer directly and issue one scroll or clear notification; and after every sequence of
  \<open>cls\<close>, \<open>print\<close>, \<open>print_at\<close>, \<open>poke\<close>,
  \<open>set\<close> and \<open>reset\<close> calls that returns, replaying the
  notifications issued on the old buffer gives the new buffer.\<close>

theorem buffer_mutations_logged:
  assumes "runtime_ok rt"
  shows "(0 \<le> pos \<and> pos < chars_len rt \<and> 0 \<le> c \<and> c < 256 \<longrightarrow>
            update_char rt pos c =
              Inr (if chars rt ! nat pos = c then rt
                   else rt\<lparr>chars := (chars rt)[nat pos := c],
                           events := events rt @ [CellRedraw pos c]\<rparr>) \<and>
            (\<exists>rt1. update_char rt pos c = Inr rt1 \<and> update_char rt1 pos c = Inr rt1 \<and>
                events rt1 =
                  events rt @ (if chars rt ! nat pos = c then [] else [CellRedraw pos c]))) \<and>
         scroll rt =
           Inr (rt\<lparr>chars := drop (nat (line_width rt)) (chars rt) @
                             replicate (nat (line_width rt)) 32,
                   events := events rt @ [ScrollBlit]\<rparr>) \<and>
         cls rt =
           Inr (rt\<lparr>chars := replicate (nat (chars_len rt)) 32, cursor := 0,
                   events := events rt @ [ClearFill]\<rparr>) \<and>
         (do_calls rt calls = Inr rt' \<longrightarrow> logged rt rt')"
proof (intro conjI impI)
  assume h: "0 \<le> pos \<and> pos < chars_len rt \<and> 0 \<le> c \<and> c < 256"
  show "update_char rt pos c =
              Inr (if chars rt ! nat pos = c then rt
                   else rt\<lparr>chars := (chars rt)[nat pos := c],
                           events := events rt @ [CellRedraw pos c]\<rparr>)"
    using update_char_ok [OF assms, of pos c] h by blast
  show "\<exists>rt1. update_char rt pos c = Inr rt1 \<and> update_char rt1 pos c = Inr rt1 \<and>
                events rt1 =
                  events rt @ (if chars rt ! nat pos = c then [] else [CellRedraw pos c])"
    using update_char_twice [OF assms, of pos c] h by blast
next
  show "scroll rt =
           Inr (rt\<lparr>chars := drop (nat (line_width rt)) (chars rt) @
                             replicate (nat (line_width rt)) 32,
                   events := events rt @ [ScrollBlit]\<rparr>)"
    using assms by (rule scroll_result)
next
  show "cls rt =
           Inr (rt\<lparr>chars := replicate (nat (chars_len rt)) 32, cursor := 0,
                   events := events rt @ [ClearFill]\<rparr>)"
    using assms by (rule cls_result)
next
  assume "do_calls rt calls = Inr rt'"
  with assms show "logged rt rt'" by (rule do_calls_logged)
qed

theorem buffer_mutations_logged_witness:
  "runtime_ok (projr (Runtime_init 64)) \<and>
   update_char (projr (Runtime_init 64)) 5 65 =
     Inr ((projr (Runtime_init 64))\<lparr>chars := (replicate 1024 32)[5 := 65],
                                     events := [CellRedraw 5 65]\<rparr>) \<and>
   do_calls (projr (Runtime_init 64)) [Print [72], Poke 15361 73] =
     Inr ((projr (Runtime_init 64))\<lparr>chars := (replicate 1024 32)[0 := 72, 1 := 73], cursor := 1,
                                     events := [CellRedraw 0 72, CellRedraw 1 73]\<rparr>) \<and>
   logged (projr (Runtime_init 64))
     ((projr (Runtime_init 64))\<lparr>chars := (replicate 1024 32)[0 := 72, 1 := 73], cursor := 1,
                                 events := [CellRedraw 0 72, CellRedraw 1 73]\<rparr>)"
proof -
  let ?R = "projr (Runtime_init 64)"
  let ?R2 = "?R\<lparr>chars := (replicate 1024 32)[0 := 72, 1 := 73], cursor := 1,
                 events := [CellRedraw 0 72, CellRedraw 1 73]\<rparr>"
  have ok: "runtime_ok ?R" by (rule Runtime_init_64_ok)
  have f: "chars_len ?R = 1024" "chars ?R ! nat 5 = 32" "chars ?R = replicate 1024 32"
    "events ?R = []"
    by (simp_all add: Runtime_init_64)
  have calls: "do_calls ?R [Print [72], Poke 15361 73] = Inr ?R2"
    by (simp add: Runtime_init_64 print_char_def poke_def update_char_def list_get_def
          list_set_def list_index_def Let_def)
  have u: "update_char ?R 5 65 =
     Inr (?R\<lparr>chars := (replicate 1024 32)[5 := 65], events := [CellRedraw 5 65]\<rparr>)"
    using buffer_mutations_logged [OF ok, of 5 65 "[Print [72], Poke 15361 73]" ?R2] f by simp
  have l: "logged ?R ?R2"
    using buffer_mutations_logged [OF ok, of 5 65 "[Print [72], Poke 15361 73]" ?R2] calls
    by blast
  show ?thesis using ok u calls l by blast
qed

end
